theory Spec2Isabelle
  imports Complex_Main "HOL-Library.Char_ord" "HOL-Library.List_Lexorder" "HOL-Library.Sublist"
    "HOL-Library.Log_Nat" "HOL-Library.Code_Target_Numeral"
begin

section \<open>JavaScript strings\<close>

text \<open>
  A JavaScript string is a sequence of UTF-16 code units. The model uses \<open>string\<close>; one
  \<open>char\<close> stands for one code unit below 256. Comparison of strings (\<open>Array.prototype.sort\<close>
  with no comparator, \<open>===\<close>) is comparison of the code unit sequences: the lexicographic order
  on \<open>char list\<close> over the order of the codes.
\<close>

definition is_digit :: "char \<Rightarrow> bool" where
  "is_digit c = (CHR ''0'' \<le> c \<and> c \<le> CHR ''9'')"

definition digit_char :: "nat \<Rightarrow> char" where
  "digit_char d = char_of (48 + d)"

definition is_line_terminator :: "char \<Rightarrow> bool" where
  "is_line_terminator c = (c = CHR 0x0A \<or> c = CHR 0x0D)"

definition is_js_space :: "char \<Rightarrow> bool" where
  "is_js_space c = (of_char c \<in> {9::nat, 10, 11, 12, 13, 32, 160})"

definition trim_start :: "string \<Rightarrow> string" where
  "trim_start s = dropWhile is_js_space s"

definition trim :: "string \<Rightarrow> string" where
  "trim s = rev (dropWhile is_js_space (rev (dropWhile is_js_space s)))"

function show_nat :: "nat \<Rightarrow> string" where
  "show_nat n = (if n < 10 then [digit_char n] else show_nat (n div 10) @ [digit_char (n mod 10)])"
  by pat_completeness auto
termination
  by (relation "measure id") auto

declare show_nat.simps [simp del]

definition radix_val :: "char \<Rightarrow> nat" where
  "radix_val c =
     (if CHR ''0'' \<le> c \<and> c \<le> CHR ''9'' then of_char c - 48
      else if CHR ''a'' \<le> c \<and> c \<le> CHR ''z'' then of_char c - 87
      else if CHR ''A'' \<le> c \<and> c \<le> CHR ''Z'' then of_char c - 55
      else 36)"

definition is_radix_digit :: "nat \<Rightarrow> char \<Rightarrow> bool" where
  "is_radix_digit r c = (radix_val c < r)"

definition nat_of_digits :: "nat \<Rightarrow> string \<Rightarrow> nat" where
  "nat_of_digits r s = foldl (\<lambda>a c. r * a + radix_val c) 0 s"

section \<open>JavaScript numbers\<close>

text \<open>
  A Number is an IEEE 754 double: not-a-number, an infinity, or a sign (\<open>True\<close> for minus)
  and a magnitude, the exact rational value of the double. \<open>to_double\<close> rounds a
  non-negative rational to the nearest double, ties to the even significand; the
  significand has 53 bits, the least exponent is \<open>-1074\<close>, and a result of \<open>2 ^ 1024\<close> or more
  is an infinity.
\<close>

datatype number = NaN | Infinity bool | Finite bool rat

text \<open>\<open>floor_log b q\<close> is the integer \<open>e\<close> with \<open>b ^ e \<le> q < b ^ (e + 1)\<close>, for \<open>q > 0\<close>.\<close>

definition floor_log :: "nat \<Rightarrow> rat \<Rightarrow> int" where
  "floor_log b q =
     (let (a, d) = quotient_of q;
          k = int (floorlog b (nat a)) - int (floorlog b (nat d))
      in if of_nat b powi k \<le> q then k else k - 1)"

definition round_half_even :: "rat \<Rightarrow> int" where
  "round_half_even q =
     (let f = \<lfloor>q\<rfloor>; r = q - of_int f
      in if r < 1 / 2 then f else if 1 / 2 < r then f + 1 else if even f then f else f + 1)"

text \<open>The least magnitude that rounds to an infinity, \<open>2 ^ 1024\<close>.\<close>

definition overflow_bound :: rat where
  "overflow_bound =
     179769313486231590772930519078902473361797697894230657273430081157732675805500963132708477322407536021120113879871393357658789768814416622492847430639474124377767893424865485276302219601246094119453082952085005768838150682342462881473913110540827237163350510684586298239947245938479716304835356329624224137216"

definition round_mag :: "rat \<Rightarrow> rat option" where
  "round_mag q =
     (if q = 0 then Some 0
      else let ex = max (floor_log 2 q - 52) (- 1074);
               v = of_int (round_half_even (q / 2 powi ex)) * 2 powi ex
           in if overflow_bound \<le> v then None else Some v)"

definition to_double :: "bool \<Rightarrow> rat \<Rightarrow> number" where
  "to_double neg q = (case round_mag q of None \<Rightarrow> Infinity neg | Some v \<Rightarrow> Finite neg v)"



text \<open>
  \<open>Number::toString\<close>. For a positive double \<open>v\<close> it takes the least number \<open>k\<close> of digits for
  which some \<open>s\<close> with \<open>k\<close> digits has \<open>s * 10 ^ (n - k)\<close> round to \<open>v\<close>, the \<open>s\<close> nearest to \<open>v\<close> if
  there are two; 17 digits always suffice, so the search stops there.
\<close>

definition digits_candidate :: "rat \<Rightarrow> int \<Rightarrow> nat \<Rightarrow> (nat \<times> int) option" where
  "digits_candidate v n k =
     (let scale = 10 powi (n - int k);
          lo = nat \<lfloor>v / scale\<rfloor>;
          hi = lo + 1;
          ok_lo = (to_double False (of_nat lo * scale) = Finite False v);
          ok_hi = (to_double False (of_nat hi * scale) = Finite False v);
          s = (if ok_lo \<and> ok_hi
               then (if v - of_nat lo * scale < of_nat hi * scale - v
                        \<or> (v - of_nat lo * scale = of_nat hi * scale - v \<and> even lo) then lo else hi)
               else if ok_lo then lo else hi)
      in if ok_lo \<or> ok_hi then Some (if s = 10 ^ k then (10 ^ (k - 1), n + 1) else (s, n)) else None)"

fun shortest_digits :: "rat \<Rightarrow> int \<Rightarrow> nat list \<Rightarrow> nat \<times> int" where
  "shortest_digits v n [] = (nat \<lfloor>v / 10 powi (n - 17)\<rfloor>, n)"
| "shortest_digits v n (k # ks) =
     (case digits_candidate v n k of Some r \<Rightarrow> r | None \<Rightarrow> shortest_digits v n ks)"

definition positive_to_string :: "rat \<Rightarrow> string" where
  "positive_to_string v =
     (let (s, n) = shortest_digits v (floor_log 10 v + 1) [1..<18];
          ds = show_nat s;
          k = int (length ds)
      in if k \<le> n \<and> n \<le> 21 then ds @ replicate (nat (n - k)) (CHR ''0'')
         else if 0 < n \<and> n \<le> 21 then take (nat n) ds @ ''.'' @ drop (nat n) ds
         else if - 6 < n \<and> n \<le> 0 then ''0.'' @ replicate (nat (- n)) (CHR ''0'') @ ds
         else let e = n - 1;
                  es = (if e < 0 then ''-'' else ''+'') @ show_nat (nat \<bar>e\<bar>)
              in if k = 1 then ds @ ''e'' @ es else [hd ds] @ ''.'' @ tl ds @ ''e'' @ es)"

fun number_to_string :: "number \<Rightarrow> string" where
  "number_to_string NaN = ''NaN''"
| "number_to_string (Infinity neg) = (if neg then ''-Infinity'' else ''Infinity'')"
| "number_to_string (Finite neg v) =
     (if v = 0 then ''0'' else (if neg then ''-'' else []) @ positive_to_string v)"

text \<open>\<open>parseInt(string)\<close> with no radix argument.\<close>

definition parseInt :: "string \<Rightarrow> number" where
  "parseInt inputString =
     (let S = trim_start inputString;
          neg = (S \<noteq> [] \<and> hd S = CHR ''-'');
          S1 = (if S \<noteq> [] \<and> (hd S = CHR ''+'' \<or> hd S = CHR ''-'') then tl S else S);
          hex = (take 2 S1 = ''0x'' \<or> take 2 S1 = ''0X'');
          R = (if hex then 16 else 10);
          S2 = (if hex then drop 2 S1 else S1);
          Z = takeWhile (is_radix_digit R) S2
      in if Z = [] then NaN else to_double neg (of_nat (nat_of_digits R Z)))"

text \<open>\<open>Number(string)\<close>: the \<open>StringToNumber\<close> of ECMAScript; \<open>None\<close> when the string is not
  a \<open>StringNumericLiteral\<close>.\<close>

definition non_decimal_literal :: "string \<Rightarrow> nat option" where
  "non_decimal_literal t =
     (let p = take 2 t; ds = drop 2 t;
          r = (if p = ''0x'' \<or> p = ''0X'' then 16 else if p = ''0o'' \<or> p = ''0O'' then 8
               else if p = ''0b'' \<or> p = ''0B'' then 2 else 0)
      in if r \<noteq> 0 \<and> ds \<noteq> [] \<and> list_all (is_radix_digit r) ds then Some (nat_of_digits r ds) else None)"

definition exponent_part :: "string \<Rightarrow> int option" where
  "exponent_part r =
     (if r = [] then Some 0
      else if hd r = CHR ''e'' \<or> hd r = CHR ''E'' then
        (let r1 = tl r;
             eneg = (r1 \<noteq> [] \<and> hd r1 = CHR ''-'');
             ds = (if r1 \<noteq> [] \<and> (hd r1 = CHR ''+'' \<or> hd r1 = CHR ''-'') then tl r1 else r1)
         in if ds \<noteq> [] \<and> list_all is_digit ds
            then Some (if eneg then - int (nat_of_digits 10 ds) else int (nat_of_digits 10 ds))
            else None)
      else None)"

definition unsigned_decimal_literal :: "string \<Rightarrow> rat option" where
  "unsigned_decimal_literal u =
     (let ip = takeWhile is_digit u;
          r1 = dropWhile is_digit u;
          dot = (r1 \<noteq> [] \<and> hd r1 = CHR ''.'');
          fp = (if dot then takeWhile is_digit (tl r1) else []);
          r2 = (if dot then dropWhile is_digit (tl r1) else r1)
      in if ip = [] \<and> fp = [] then None
         else (case exponent_part r2 of
                 None \<Rightarrow> None
               | Some e \<Rightarrow> Some (of_nat (nat_of_digits 10 (ip @ fp)) * 10 powi (e - int (length fp)))))"

definition string_to_number :: "string \<Rightarrow> number option" where
  "string_to_number str =
     (let t = trim str
      in if t = [] then Some (Finite False 0)
         else (case non_decimal_literal t of
                 Some n \<Rightarrow> Some (to_double False (of_nat n))
               | None \<Rightarrow>
                   (let neg = (hd t = CHR ''-'');
                        u = (if hd t = CHR ''+'' \<or> hd t = CHR ''-'' then tl t else t)
                    in if u = ''Infinity'' then Some (Infinity neg)
                       else map_option (to_double neg) (unsigned_decimal_literal u))))"

definition Number :: "string \<Rightarrow> number" where
  "Number str = (case string_to_number str of None \<Rightarrow> NaN | Some n \<Rightarrow> n)"


section \<open>Values and objects\<close>

datatype jsval =
    JUndefined
  | JNull
  | JBool bool
  | JNum number
  | JStr string
  | JArr "jsval list"
  | JObj "(string \<times> jsval) list"

text \<open>
  An ordinary object is the list of its own enumerable properties in the order
  \<open>Object.keys\<close> reports them: array indices first, ascending, then the other keys in the
  order they were created. A property whose type allows \<open>undefined\<close> has an \<open>option\<close> value,
  \<open>None\<close> for \<open>undefined\<close>.
\<close>

definition is_array_index :: "string \<Rightarrow> bool" where
  "is_array_index k =
     (k \<noteq> [] \<and> list_all is_digit k \<and> (k = ''0'' \<or> hd k \<noteq> CHR ''0'')
      \<and> nat_of_digits 10 k < 4294967295)"

fun replace_prop :: "string \<Rightarrow> 'v \<Rightarrow> (string \<times> 'v) list \<Rightarrow> (string \<times> 'v) list" where
  "replace_prop k v [] = []"
| "replace_prop k v ((k', v') # ps) =
     (if k' = k then (k, v) # ps else (k', v') # replace_prop k v ps)"

fun insert_index :: "string \<Rightarrow> 'v \<Rightarrow> (string \<times> 'v) list \<Rightarrow> (string \<times> 'v) list" where
  "insert_index k v [] = [(k, v)]"
| "insert_index k v ((k', v') # ps) =
     (if is_array_index k' \<and> nat_of_digits 10 k' < nat_of_digits 10 k
      then (k', v') # insert_index k v ps
      else (k, v) # (k', v') # ps)"

text \<open>\<open>obj[k] = v\<close> on an ordinary object, for a key other than \<open>__proto__\<close>.\<close>

definition obj_set :: "(string \<times> 'v) list \<Rightarrow> string \<Rightarrow> 'v \<Rightarrow> (string \<times> 'v) list" where
  "obj_set ps k v =
     (case map_of ps k of
        Some _ \<Rightarrow> replace_prop k v ps
      | None \<Rightarrow> if is_array_index k then insert_index k v ps else ps @ [(k, v)])"

text \<open>\<open>Boolean(x)\<close>\<close>

fun truthy :: "jsval \<Rightarrow> bool" where
  "truthy JUndefined = False"
| "truthy JNull = False"
| "truthy (JBool b) = b"
| "truthy (JNum NaN) = False"
| "truthy (JNum (Infinity neg)) = True"
| "truthy (JNum (Finite neg v)) = (v \<noteq> 0)"
| "truthy (JStr s) = (s \<noteq> [])"
| "truthy (JArr xs) = True"
| "truthy (JObj ps) = True"

fun typeof :: "jsval \<Rightarrow> string" where
  "typeof JUndefined = ''undefined''"
| "typeof JNull = ''object''"
| "typeof (JBool b) = ''boolean''"
| "typeof (JNum n) = ''number''"
| "typeof (JStr s) = ''string''"
| "typeof (JArr xs) = ''object''"
| "typeof (JObj ps) = ''object''"

fun join_with :: "string \<Rightarrow> string list \<Rightarrow> string" where
  "join_with sep [] = []"
| "join_with sep [x] = x"
| "join_with sep (x # y # ys) = x @ sep @ join_with sep (y # ys)"

text \<open>\<open>ToString\<close>, as a template literal applies it; an object is taken to have the
  \<open>toString\<close> of \<open>Object.prototype\<close>.\<close>

fun to_string :: "jsval \<Rightarrow> string" where
  "to_string JUndefined = ''undefined''"
| "to_string JNull = ''null''"
| "to_string (JBool b) = (if b then ''true'' else ''false'')"
| "to_string (JNum n) = number_to_string n"
| "to_string (JStr s) = s"
| "to_string (JArr xs) =
     join_with '','' (map (\<lambda>x. if x = JNull \<or> x = JUndefined then [] else to_string x) xs)"
| "to_string (JObj ps) = ''[object Object]''"

section \<open>Errors\<close>

text \<open>
  What a call can throw. \<open>Thrown e\<close> is the value \<open>e\<close> a validator threw, passed on as it is;
  \<open>JsError m\<close> is \<open>new Error(m)\<close>. \<open>Unmodelled\<close> is no JavaScript exception: it marks an input
  outside the fragment of JavaScript this theory gives a meaning to (a namespace with a
  character that is special in a regular expression; a path segment \<open>__proto__\<close>, which
  reaches the prototype of an object; a property other than an index stored on an array).
\<close>

datatype error =
    TypeError
  | SyntaxError
  | ENOENT string
  | EISDIR string
  | ENOTDIR string
  | JsError string
  | Thrown jsval
  | Unmodelled

section \<open>The function \<open>nativize\<close>\<close>

definition nativize :: "string \<Rightarrow> jsval" where
  "nativize v =
     (if number_to_string (parseInt v) = v then JNum (Number v)
      else if v = ''true'' then JBool True
      else if v = ''false'' then JBool False
      else if v = ''null'' then JNull
      else JStr v)"

section \<open>The function \<open>interpret\<close>\<close>

text \<open>\<open>String.prototype.split\<close> with a string separator.\<close>

function split_from :: "string \<Rightarrow> string \<Rightarrow> string \<Rightarrow> string list" where
  "split_from sep acc [] = [acc]"
| "split_from sep acc (c # cs) =
     (if sep \<noteq> [] \<and> prefix sep (c # cs)
      then acc # split_from sep [] (drop (length sep) (c # cs))
      else split_from sep (acc @ [c]) cs)"
  by pat_completeness auto
termination
  by (relation "measure (\<lambda>(sep, acc, s). length s)") auto

definition js_split :: "string \<Rightarrow> string \<Rightarrow> string list" where
  "js_split s sep = (if sep = [] then map (\<lambda>c. [c]) s else split_from sep [] s)"

text \<open>\<open>v.match(/^<(number|string|boolean)>(.*)$/)\<close>: the groups 1 and 2 of the match.\<close>

definition cast_match :: "string \<Rightarrow> (string \<times> string) option" where
  "cast_match v =
     (case find (\<lambda>t. prefix (''<'' @ t @ ''>'') v) [''number'', ''string'', ''boolean''] of
        None \<Rightarrow> None
      | Some t \<Rightarrow>
          (let rest = drop (length t + 2) v
           in if list_ex is_line_terminator rest then None else Some (t, rest)))"

text \<open>The constant \<open>value\<close> of the loop body: the cast of one raw string.\<close>

definition cast_value :: "string \<Rightarrow> jsval" where
  "cast_value raw =
     (case cast_match raw of
        Some (t, x) \<Rightarrow>
          (if t = ''number'' then JNum (Number x)
           else if t = ''boolean'' then JBool (truthy (nativize x))
           else JStr x)
      | None \<Rightarrow> nativize raw)"

text \<open>The constant \<open>part\<close> is a number when the segment looks like an integer and the
  segment itself otherwise; used as a property key it is converted back to a string.\<close>

datatype part = PartNum number | PartStr string

definition part_of :: "string \<Rightarrow> part" where
  "part_of seg = (if number_to_string (parseInt seg) = seg then PartNum (parseInt seg) else PartStr seg)"

fun property_key :: "part \<Rightarrow> string" where
  "property_key (PartNum n) = number_to_string n"
| "property_key (PartStr s) = s"

text \<open>
  The three operations of the loop on \<open>current\<close>. The compiled module runs in strict mode,
  where storing a property on a primitive throws. An object that has a property of its own
  called \<open>hasOwnProperty\<close> (never a function here) cannot be asked \<open>current.hasOwnProperty(part)\<close>.
\<close>

fun has_own_property :: "jsval \<Rightarrow> string \<Rightarrow> error + bool" where
  "has_own_property (JObj ps) k =
     (if map_of ps ''hasOwnProperty'' \<noteq> None then Inl TypeError else Inr (map_of ps k \<noteq> None))"
| "has_own_property (JArr xs) k =
     Inr (k = ''length'' \<or> (is_array_index k \<and> nat_of_digits 10 k < length xs))"
| "has_own_property (JStr s) k =
     Inr (k = ''length'' \<or> (is_array_index k \<and> nat_of_digits 10 k < length s))"
| "has_own_property (JNum n) k = Inr False"
| "has_own_property (JBool b) k = Inr False"
| "has_own_property JNull k = Inl TypeError"
| "has_own_property JUndefined k = Inl TypeError"

fun set_prop :: "jsval \<Rightarrow> string \<Rightarrow> jsval \<Rightarrow> error + jsval" where
  "set_prop (JObj ps) k v = Inr (JObj (obj_set ps k v))"
| "set_prop (JArr xs) k v =
     (if is_array_index k
      then (let i = nat_of_digits 10 k
            in Inr (JArr (if i < length xs then xs[i := v]
                          else xs @ replicate (i - length xs) JUndefined @ [v])))
      else Inl Unmodelled)"
| "set_prop cur k v = Inl TypeError"

fun get_prop :: "jsval \<Rightarrow> string \<Rightarrow> jsval" where
  "get_prop (JObj ps) k = (case map_of ps k of Some v \<Rightarrow> v | None \<Rightarrow> JUndefined)"
| "get_prop (JArr xs) k =
     (if k = ''length'' then JNum (Finite False (of_nat (length xs)))
      else if is_array_index k \<and> nat_of_digits 10 k < length xs then xs ! nat_of_digits 10 k
      else JUndefined)"
| "get_prop (JStr s) k =
     (if k = ''length'' then JNum (Finite False (of_nat (length s)))
      else if is_array_index k \<and> nat_of_digits 10 k < length s then JStr [s ! nat_of_digits 10 k]
      else JUndefined)"
| "get_prop cur k = JUndefined"

text \<open>The key \<open>current[part]\<close> names: \<open>part\<close> converted back to a string.\<close>

definition segment_key :: "string \<Rightarrow> string" where
  "segment_key seg = property_key (part_of seg)"

text \<open>The loop over the path. \<open>current\<close> points into the tree that is being mutated; the
  function returns the node \<open>current\<close> pointed to, as it is after the loop.\<close>

fun place :: "string list \<Rightarrow> jsval \<Rightarrow> jsval \<Rightarrow> error + jsval" where
  "place [] val current = Inr current"
| "place [seg] val current = set_prop current (segment_key seg) val"
| "place (seg # nxt # rest) val current =
     (let k = segment_key seg
      in case has_own_property current k of
           Inl e \<Rightarrow> Inl e
         | Inr own \<Rightarrow>
             (case (if own then Inr current
                    else set_prop current k
                           (if typeof (JStr nxt) = ''number'' then JArr [] else JObj [])) of
                Inl e \<Rightarrow> Inl e
              | Inr current' \<Rightarrow>
                  (case place (nxt # rest) val (get_prop current' k) of
                     Inl e \<Rightarrow> Inl e
                   | Inr child \<Rightarrow> set_prop current' k child)))"

fun reduce_keys :: "('a \<Rightarrow> 'k \<Rightarrow> error + 'a) \<Rightarrow> 'k list \<Rightarrow> 'a \<Rightarrow> error + 'a" where
  "reduce_keys f [] acc = Inr acc"
| "reduce_keys f (k # ks) acc = (case f acc k of Inl e \<Rightarrow> Inl e | Inr acc' \<Rightarrow> reduce_keys f ks acc')"

definition prop_get :: "(string \<times> 'v option) list \<Rightarrow> string \<Rightarrow> 'v option" where
  "prop_get obj k = (case map_of obj k of None \<Rightarrow> None | Some v \<Rightarrow> v)"

definition interpret_key :: "(string \<times> string option) list \<Rightarrow> string \<Rightarrow> jsval \<Rightarrow> string \<Rightarrow> error + jsval" where
  "interpret_key flat delimiter obj k =
     (let path = js_split k delimiter
      in case prop_get flat k of
           None \<Rightarrow> Inl TypeError
         | Some raw \<Rightarrow>
             (let val = cast_value raw
              in if ''__proto__'' \<in> set path then Inl Unmodelled else place path val obj))"

definition interpret_flat :: "(string \<times> string option) list \<Rightarrow> string \<Rightarrow> error + jsval" where
  "interpret_flat flat delimiter = reduce_keys (interpret_key flat delimiter) (map fst flat) (JObj [])"

section \<open>The function \<open>_configFromEnv\<close>\<close>

text \<open>
  \<open>new RegExp(`^${ns}(.+?)(__[0-9]+)?$`)\<close>. The namespace is spliced into the pattern as
  pattern text. \<open>base_name\<close>, \<open>flatten_step\<close> and \<open>flatten\<close> give the meaning of the pattern for a
  namespace that the regular expression reads literally, one with no character for which
  \<open>regexp_special\<close> holds; for any other namespace they are not the code, \<open>configFromEnv\<close>
  answers \<open>Unmodelled\<close>, and every statement below about a namespace that is not fixed assumes
  \<open>\<not> list_ex regexp_special ns\<close>. Group 1 is lazy: it is the shortest non-empty run of
  characters, none of them a line terminator, after which the rest of the key is empty or a
  version suffix.
\<close>

definition regexp_special :: "char \<Rightarrow> bool" where
  "regexp_special c = (c = CHR 0x5C \<or> c \<in> set ''^$.|?*+()[]{}'')"

definition is_version_suffix :: "string \<Rightarrow> bool" where
  "is_version_suffix r = (take 2 r = ''__'' \<and> drop 2 r \<noteq> [] \<and> list_all is_digit (drop 2 r))"

fun lazy_group :: "string \<Rightarrow> string \<Rightarrow> string option" where
  "lazy_group p [] = (if p \<noteq> [] then Some p else None)"
| "lazy_group p (c # cs) =
     (if p \<noteq> [] \<and> is_version_suffix (c # cs) then Some p
      else if is_line_terminator c then None
      else lazy_group (p @ [c]) cs)"

text \<open>\<open>regexp.test(cur)\<close> and \<open>cur.replace(regexp, "$1")\<close>: \<open>None\<close> when the key does not
  match, the base name when it does.\<close>

definition base_name :: "string \<Rightarrow> string \<Rightarrow> string option" where
  "base_name ns cur = (if prefix ns cur then lazy_group [] (drop (length ns) cur) else None)"

type_synonym env_map = "(string \<times> string option) list"

text \<open>The \<open>reduce\<close> over the sorted keys. A store to \<open>agg["__proto__"]\<close> of a string or of
  \<open>undefined\<close> changes nothing.\<close>

definition flatten_step :: "env_map \<Rightarrow> string \<Rightarrow> env_map \<Rightarrow> string \<Rightarrow> env_map" where
  "flatten_step env ns agg cur =
     (case base_name ns cur of
        None \<Rightarrow> agg
      | Some nm \<Rightarrow> if nm = ''__proto__'' then agg else obj_set agg nm (prop_get env cur))"

definition flatten :: "env_map \<Rightarrow> string \<Rightarrow> env_map" where
  "flatten env ns = foldl (flatten_step env ns) [] (sort (map fst env))"

definition configFromEnv :: "env_map \<Rightarrow> string \<Rightarrow> string \<Rightarrow> error + jsval" where
  "configFromEnv env ns delimiter =
     (if list_ex regexp_special ns then Inl Unmodelled else interpret_flat (flatten env ns) delimiter)"

section \<open>The file system and \<open>inflateSecretsDir\<close>\<close>

text \<open>
  The file system as the calls of \<open>fs\<close> see it: what stands at a path, the path being the
  string the call is given (a relative one is resolved by the process against its working
  directory).
\<close>

datatype fsnode = File string | Dir "string list"

type_synonym filesystem = "string \<Rightarrow> fsnode option"

definition existsSync :: "filesystem \<Rightarrow> string \<Rightarrow> bool" where
  "existsSync fs p = (fs p \<noteq> None)"

definition readFileSync :: "filesystem \<Rightarrow> string \<Rightarrow> error + string" where
  "readFileSync fs p =
     (case fs p of None \<Rightarrow> Inl (ENOENT p) | Some (Dir names) \<Rightarrow> Inl (EISDIR p) | Some (File c) \<Rightarrow> Inr c)"

definition readdirSync :: "filesystem \<Rightarrow> string \<Rightarrow> error + string list" where
  "readdirSync fs p =
     (case fs p of None \<Rightarrow> Inl (ENOENT p) | Some (File c) \<Rightarrow> Inl (ENOTDIR p) | Some (Dir names) \<Rightarrow> Inr names)"

definition read_entry :: "filesystem \<Rightarrow> env_map \<Rightarrow> string \<Rightarrow> error + env_map" where
  "read_entry fs env f =
     (case readFileSync fs f of
        Inl e \<Rightarrow> Inl e
      | Inr c \<Rightarrow> Inr (if f = ''__proto__'' then env else obj_set env f (Some c)))"

definition inflateSecretsDir :: "filesystem \<Rightarrow> string \<Rightarrow> error + env_map" where
  "inflateSecretsDir fs path =
     (case readdirSync fs path of
        Inl e \<Rightarrow> Inl e
      | Inr names \<Rightarrow> reduce_keys (read_entry fs) names [])"

section \<open>The function \<open>deepmerge\<close>\<close>

text \<open>
  Modelled from the spec: \<open>deepmerge\<close> of the package \<open>@wymp/weenie-base\<close>, which is not among
  the sources. Later arguments override earlier ones key by key; where both sides hold an
  object the two are merged recursively; any other value (a scalar, an array) replaces
  what was there.
\<close>

fun deepmerge2 :: "jsval \<Rightarrow> jsval \<Rightarrow> jsval"
  and merge_props :: "(string \<times> jsval) list \<Rightarrow> (string \<times> jsval) list \<Rightarrow> (string \<times> jsval) list" where
  "deepmerge2 (JObj xs) (JObj ys) = JObj (merge_props xs ys)"
| "deepmerge2 a b = b"
| "merge_props xs [] = xs"
| "merge_props xs ((k, v) # ys) =
     merge_props (obj_set xs k (case map_of xs k of Some u \<Rightarrow> deepmerge2 u v | None \<Rightarrow> v)) ys"

definition deepmerge :: "jsval \<Rightarrow> jsval list \<Rightarrow> jsval" where
  "deepmerge base adds = foldl deepmerge2 base adds"

section \<open>The function \<open>config\<close>\<close>

record src =
  env :: "env_map option"
  defaultsFile :: "string option"
  localsFile :: "string option"
  secretsDir :: "string option"

text \<open>\<open>JSON.parse\<close> is a parameter: \<open>None\<close> is its \<open>SyntaxError\<close>.\<close>

definition load_json :: "filesystem \<Rightarrow> (string \<Rightarrow> jsval option) \<Rightarrow> string option \<Rightarrow> error + jsval" where
  "load_json fs parse file =
     (case file of
        None \<Rightarrow> Inr (JObj [])
      | Some f \<Rightarrow>
          if f \<noteq> [] \<and> existsSync fs f
          then (case readFileSync fs f of
                  Inl e \<Rightarrow> Inl e
                | Inr c \<Rightarrow> (case parse c of None \<Rightarrow> Inl SyntaxError | Some v \<Rightarrow> Inr v))
          else Inr (JObj []))"

definition load_secrets :: "filesystem \<Rightarrow> string \<Rightarrow> string \<Rightarrow> string option \<Rightarrow> error + jsval" where
  "load_secrets fs ns delimiter dir =
     (case dir of
        None \<Rightarrow> Inr (JObj [])
      | Some d \<Rightarrow>
          if d \<noteq> [] \<and> existsSync fs d
          then (case inflateSecretsDir fs d of
                  Inl e \<Rightarrow> Inl e
                | Inr secrets \<Rightarrow> configFromEnv secrets ns delimiter)
          else Inr (JObj []))"

definition load_env :: "string \<Rightarrow> string \<Rightarrow> env_map option \<Rightarrow> error + jsval" where
  "load_env ns delimiter e =
     (case e of None \<Rightarrow> Inr (JObj []) | Some m \<Rightarrow> configFromEnv m ns delimiter)"

text \<open>The array \<open>vals\<close>.\<close>

definition config_vals ::
  "filesystem \<Rightarrow> (string \<Rightarrow> jsval option) \<Rightarrow> string \<Rightarrow> src \<Rightarrow> string \<Rightarrow> error + jsval list" where
  "config_vals fs parse ns s delimiter =
     (case load_json fs parse (defaultsFile s) of
        Inl e \<Rightarrow> Inl e
      | Inr v0 \<Rightarrow>
     (case load_json fs parse (localsFile s) of
        Inl e \<Rightarrow> Inl e
      | Inr v1 \<Rightarrow>
     (case load_secrets fs ns delimiter (secretsDir s) of
        Inl e \<Rightarrow> Inl e
      | Inr v2 \<Rightarrow>
     (case load_env ns delimiter (env s) of
        Inl e \<Rightarrow> Inl e
      | Inr v3 \<Rightarrow> Inr [v0, v1, v2, v3]))))"

text \<open>The merged tree the validator is given.\<close>

definition merged_config :: "jsval list \<Rightarrow> jsval" where
  "merged_config vals = deepmerge (vals ! 0) [vals ! 1, vals ! 2, vals ! 3]"

text \<open>A property read \<open>e.name\<close> on a caught value.\<close>

fun field :: "jsval \<Rightarrow> string \<Rightarrow> error + jsval" where
  "field JUndefined k = Inl TypeError"
| "field JNull k = Inl TypeError"
| "field (JObj ps) k = Inr (case map_of ps k of Some v \<Rightarrow> v | None \<Rightarrow> JUndefined)"
| "field e k = Inr JUndefined"

text \<open>The \<open>catch\<close> block: what the call throws when \<open>validator.check\<close> threw \<open>e\<close>.
  \<open>stringify d\<close> is \<open>JSON.stringify(d, null, 2)\<close>.\<close>

definition on_check_error :: "(jsval \<Rightarrow> string) \<Rightarrow> jsval \<Rightarrow> error" where
  "on_check_error stringify e =
     (case field e ''name'' of
        Inl err \<Rightarrow> err
      | Inr name \<Rightarrow>
          if truthy name \<and> name = JStr ''ValidationError''
          then (let key = get_prop e ''key''; message = get_prop e ''message'';
                    details = get_prop e ''details''
                in JsError (''Invalid configuration: ''
                     @ (if truthy key then to_string key @ '': '' else [])
                     @ to_string message
                     @ (if truthy details then [CHR 0x0A] @ ''Details: '' @ stringify details else [])))
          else Thrown e)"

datatype 'c deps = Deps (config_of: 'c)

definition config ::
  "filesystem \<Rightarrow> (string \<Rightarrow> jsval option) \<Rightarrow> (jsval \<Rightarrow> string) \<Rightarrow>
   string \<Rightarrow> src \<Rightarrow> (jsval \<Rightarrow> jsval + 'c) \<Rightarrow> string \<Rightarrow> error + 'c deps" where
  "config fs parse stringify ns s check delimiter =
     (case config_vals fs parse ns s delimiter of
        Inl e \<Rightarrow> Inl e
      | Inr vals \<Rightarrow>
          (case check (merged_config vals) of
             Inr c \<Rightarrow> Inr (Deps c)
           | Inl e \<Rightarrow> Inl (on_check_error stringify e)))"


section \<open>Paths into a config tree\<close>

text \<open>
  The vocabulary of the claims about merging. \<open>get_path v p\<close> is the value the tree \<open>v\<close> holds
  at the key path \<open>p\<close>, descending through objects only. \<open>absent v p\<close> says that \<open>v\<close> supplies
  nothing on \<open>p\<close>: walking \<open>p\<close> through the objects of \<open>v\<close> comes to an object that has no
  property for the next key. \<open>distinct_keys v\<close> says that no object in \<open>v\<close> lists a key twice,
  as is the case for every JavaScript object.
\<close>

fun get_path :: "jsval \<Rightarrow> string list \<Rightarrow> jsval option" where
  "get_path v [] = Some v"
| "get_path (JObj ps) (k # ks) = (case map_of ps k of None \<Rightarrow> None | Some u \<Rightarrow> get_path u ks)"
| "get_path v (k # ks) = None"

fun absent :: "jsval \<Rightarrow> string list \<Rightarrow> bool" where
  "absent (JObj ps) (k # ks) = (case map_of ps k of None \<Rightarrow> True | Some u \<Rightarrow> absent u ks)"
| "absent v p = False"

fun is_object :: "jsval \<Rightarrow> bool" where
  "is_object (JObj ps) = True"
| "is_object v = False"

fun distinct_keys :: "jsval \<Rightarrow> bool" where
  "distinct_keys (JObj ps) = (distinct (map fst ps) \<and> (\<forall>v \<in> snd ` set ps. distinct_keys v))"
| "distinct_keys (JArr xs) = (\<forall>v \<in> set xs. distinct_keys v)"
| "distinct_keys v = True"

section \<open>Strings of integers\<close>

text \<open>
  The vocabulary of the claim about native inference. \<open>is_int_string v\<close> says that \<open>v\<close> is the
  string form of a base-10 integer: an optional minus sign and digits, with no leading zero
  and no \<open>-0\<close>. \<open>int_of_string v\<close> is that integer, and \<open>number_of_int i\<close> the Number whose value
  is exactly \<open>i\<close>.
\<close>

definition is_int_string :: "string \<Rightarrow> bool" where
  "is_int_string v =
     (let ds = (if v \<noteq> [] \<and> hd v = CHR ''-'' then tl v else v)
      in ds \<noteq> [] \<and> list_all is_digit ds \<and> (hd ds = CHR ''0'' \<longrightarrow> v = ''0''))"

definition int_of_string :: "string \<Rightarrow> int" where
  "int_of_string v =
     (if v \<noteq> [] \<and> hd v = CHR ''-'' then - int (nat_of_digits 10 (tl v))
      else int (nat_of_digits 10 v))"

definition number_of_int :: "int \<Rightarrow> number" where
  "number_of_int i = Finite (i < 0) (of_int \<bar>i\<bar>)"

section \<open>Path segments and property keys\<close>

lemma segment_key_eq [code, simp]: "segment_key seg = seg"
  by (simp add: segment_key_def part_of_def)

section \<open>Objects as key lists\<close>

lemma map_of_replace_prop:
  "map_of ps k \<noteq> None \<Longrightarrow> map_of (replace_prop k v ps) = (map_of ps)(k \<mapsto> v)"
  by (induction ps) (auto simp: fun_eq_iff)

lemma map_of_insert_index:
  "map_of ps k = None \<Longrightarrow> map_of (insert_index k v ps) = (map_of ps)(k \<mapsto> v)"
  by (induction ps) (auto simp: fun_eq_iff split: if_splits)

lemma map_of_obj_set: "map_of (obj_set ps k v) = (map_of ps)(k \<mapsto> v)"
proof (cases "map_of ps k")
  case None
  then have "map_of (ps @ [(k, v)]) = (map_of ps)(k \<mapsto> v)"
    by (auto simp: fun_eq_iff map_add_def split: option.splits)
  with None show ?thesis
    by (simp add: obj_set_def map_of_insert_index)
next
  case (Some u)
  then show ?thesis
    by (simp add: obj_set_def map_of_replace_prop)
qed

section \<open>The flattening stage\<close>







section \<open>Version suffixes\<close>

lemma not_is_digit_underscore [simp]: "\<not> is_digit (CHR ''_'')"
  by (simp add: is_digit_def less_eq_char_def)





section \<open>Numeric order and string order of digit strings\<close>

lemma foldl_digits:
  "foldl (\<lambda>a c. r * a + radix_val c) a cs =
   a * r ^ length cs + foldl (\<lambda>a c. r * a + radix_val c) 0 cs"
proof (induction cs arbitrary: a)
  case Nil
  show ?case by simp
next
  case (Cons c cs)
  let ?f = "\<lambda>a c. r * a + radix_val c"
  have "foldl ?f a (c # cs) = (r * a + radix_val c) * r ^ length cs + foldl ?f 0 cs"
    using Cons.IH [of "r * a + radix_val c"] by simp
  moreover have "foldl ?f 0 (c # cs) = radix_val c * r ^ length cs + foldl ?f 0 cs"
    using Cons.IH [of "radix_val c"] by simp
  ultimately show ?case by (simp only: length_Cons power_Suc) (simp add: algebra_simps)
qed

lemma nat_of_digits_Cons:
  "nat_of_digits r (c # cs) = radix_val c * r ^ length cs + nat_of_digits r cs"
  using foldl_digits [of r "radix_val c" cs] by (simp add: nat_of_digits_def)

lemma radix_val_digit: "is_digit c \<Longrightarrow> radix_val c + 48 = of_char c"
  by (simp add: is_digit_def radix_val_def less_eq_char_def)

lemma radix_val_digit_le: "is_digit c \<Longrightarrow> radix_val c \<le> 9"
  unfolding is_digit_def radix_val_def less_eq_char_def by auto







section \<open>Claims about the flattening stage\<close>







section \<open>Deep merge\<close>

lemma deepmerge2_not_object_right: "\<not> is_object b \<Longrightarrow> deepmerge2 a b = b"
  by (cases a; cases b) simp_all

lemma deepmerge2_not_object_left: "\<not> is_object a \<Longrightarrow> deepmerge2 a b = b"
  by (cases a; cases b) simp_all

lemma map_of_merge_props:
  "distinct (map fst ys) \<Longrightarrow>
   map_of (merge_props xs ys) k =
     (case map_of ys k of
        None \<Rightarrow> map_of xs k
      | Some v \<Rightarrow> Some (case map_of xs k of Some u \<Rightarrow> deepmerge2 u v | None \<Rightarrow> v))"
proof (induction ys arbitrary: xs)
  case Nil
  show ?case by simp
next
  case (Cons kv ys)
  obtain k' v' where kv: "kv = (k', v')" by (cases kv)
  have notin: "map_of ys k' = None"
    using Cons.prems kv by (simp add: map_of_eq_None_iff)
  have d: "distinct (map fst ys)" using Cons.prems by simp
  show ?case
  proof (cases "k' = k")
    case True
    then show ?thesis
      using notin kv by (simp add: Cons.IH [OF d] map_of_obj_set)
  next
    case False
    then show ?thesis
      using kv by (simp add: Cons.IH [OF d] map_of_obj_set split: option.splits)
  qed
qed

lemma absent_get_path: "absent v p \<Longrightarrow> get_path v p = None"
  by (induction v p rule: absent.induct) (auto split: option.splits)

lemma distinct_keys_child:
  "distinct_keys (JObj ps) \<Longrightarrow> map_of ps k = Some u \<Longrightarrow> distinct_keys u"
  by (auto dest!: map_of_SomeD simp: image_iff)

lemma get_path_deepmerge2_right:
  "get_path b p = Some x \<Longrightarrow> p \<noteq> [] \<Longrightarrow> \<not> is_object x \<Longrightarrow> distinct_keys b \<Longrightarrow>
   get_path (deepmerge2 a b) p = Some x"
proof (induction p arbitrary: a b)
  case Nil
  then show ?case by simp
next
  case (Cons k ks)
  from Cons.prems(1) obtain ys u where b: "b = JObj ys" and u: "map_of ys k = Some u"
    and x: "get_path u ks = Some x"
    by (cases b) (auto split: option.splits)
  have du: "distinct_keys u" using Cons.prems(4) u unfolding b by (rule distinct_keys_child)
  have dy: "distinct (map fst ys)" using Cons.prems(4) b by simp
  show ?case
  proof (cases a)
    case (JObj xs)
    show ?thesis
    proof (cases "map_of xs k")
      case None
      then show ?thesis
        using u x by (simp add: JObj b map_of_merge_props [OF dy])
    next
      case (Some w)
      have "get_path (deepmerge2 w u) ks = Some x"
      proof (cases ks)
        case Nil
        with x Cons.prems(3) show ?thesis by (simp add: deepmerge2_not_object_right)
      next
        case (Cons k2 ks2)
        then show ?thesis
          using Cons.IH [OF x _ Cons.prems(3) du] by simp
      qed
      then show ?thesis
        using u Some by (simp add: JObj b map_of_merge_props [OF dy])
    qed
  qed (use Cons.prems(1) in \<open>simp_all add: b\<close>)
qed

lemma get_path_deepmerge2_absent:
  "absent b p \<Longrightarrow> distinct_keys b \<Longrightarrow> get_path (deepmerge2 a b) p = get_path a p"
proof (induction p arbitrary: a b)
  case Nil
  then show ?case by (cases b) simp_all
next
  case (Cons k ks)
  from Cons.prems(1) obtain ys where b: "b = JObj ys"
    by (cases b) auto
  have dy: "distinct (map fst ys)" using Cons.prems(2) b by simp
  have nb: "get_path b (k # ks) = None" using Cons.prems(1) by (rule absent_get_path)
  show ?case
  proof (cases a)
    case (JObj xs)
    show ?thesis
    proof (cases "map_of ys k")
      case None
      then show ?thesis
        by (simp add: JObj b map_of_merge_props [OF dy])
    next
      case (Some u)
      have au: "absent u ks" using Cons.prems(1) Some by (simp add: b)
      have du: "distinct_keys u" using Cons.prems(2) Some unfolding b by (rule distinct_keys_child)
      show ?thesis
      proof (cases "map_of xs k")
        case None
        then show ?thesis
          using Some absent_get_path [OF au] by (simp add: JObj b map_of_merge_props [OF dy])
      next
        case (Some w)
        then show ?thesis
          using \<open>map_of ys k = Some u\<close> Cons.IH [OF au du]
          by (simp add: JObj b map_of_merge_props [OF dy])
      qed
    qed
  qed (use nb in \<open>simp_all add: b\<close>)
qed

section \<open>The tree builder keeps keys distinct\<close>

lemma keys_replace_prop: "map fst (replace_prop k v ps) = map fst ps"
  by (induction ps) auto

lemma values_replace_prop: "x \<in> set (replace_prop k v ps) \<Longrightarrow> snd x = v \<or> x \<in> set ps"
  by (induction ps) (auto split: if_splits)

lemma keys_insert_index: "set (map fst (insert_index k v ps)) = insert k (set (map fst ps))"
proof (induction ps)
  case Nil
  show ?case by simp
next
  case (Cons p ps)
  then show ?case
    by (cases p) (simp add: insert_commute del: set_map)
qed

lemma values_insert_index: "x \<in> set (insert_index k v ps) \<Longrightarrow> snd x = v \<or> x \<in> set ps"
  by (induction ps) (auto split: if_splits)

lemma distinct_insert_index:
  "distinct (map fst ps) \<Longrightarrow> k \<notin> set (map fst ps) \<Longrightarrow> distinct (map fst (insert_index k v ps))"
proof (induction ps)
  case Nil
  show ?case by simp
next
  case (Cons p ps)
  then have "distinct (map fst (insert_index k v ps))" by simp
  moreover have "fst p \<notin> set (map fst (insert_index k v ps))"
    using Cons.prems unfolding keys_insert_index by auto
  ultimately show ?case using Cons.prems by (cases p) auto
qed

lemma distinct_obj_set: "distinct (map fst ps) \<Longrightarrow> distinct (map fst (obj_set ps k v))"
proof (cases "map_of ps k")
  case None
  assume d: "distinct (map fst ps)"
  from None have "k \<notin> set (map fst ps)" by (simp add: map_of_eq_None_iff)
  with d None show ?thesis by (simp add: obj_set_def distinct_insert_index)
next
  case (Some u)
  assume "distinct (map fst ps)"
  with Some show ?thesis by (simp add: obj_set_def keys_replace_prop)
qed

lemma values_obj_set: "x \<in> set (obj_set ps k v) \<Longrightarrow> snd x = v \<or> x \<in> set ps"
  by (auto simp: obj_set_def split: option.splits if_splits
      dest: values_replace_prop values_insert_index)

lemma distinct_keys_set_prop:
  assumes "distinct_keys cur" "distinct_keys v" "set_prop cur k v = Inr c"
  shows "distinct_keys c"
proof (cases cur)
  case (JObj ps)
  with assms have c: "c = JObj (obj_set ps k v)" by simp
  have "distinct (map fst (obj_set ps k v))"
    using assms(1) JObj by (simp add: distinct_obj_set)
  moreover have "distinct_keys u" if "u \<in> snd ` set (obj_set ps k v)" for u
  proof -
    from that obtain x where x: "x \<in> set (obj_set ps k v)" "u = snd x" by auto
    from values_obj_set [OF x(1)] show ?thesis
      using assms(1,2) JObj x(2) by auto
  qed
  ultimately show ?thesis unfolding c by simp
next
  case (JArr xs)
  show ?thesis
  proof (cases "is_array_index k")
    case True
    let ?i = "nat_of_digits 10 k"
    have c: "c = JArr (if ?i < length xs then xs[?i := v] else xs @ replicate (?i - length xs) JUndefined @ [v])"
      using assms(3) JArr True by (simp add: Let_def)
    have "distinct_keys u" if "u \<in> set (xs[?i := v])" for u
      using that assms(1,2) JArr set_update_subset_insert [of xs ?i v] by auto
    moreover have "distinct_keys u" if "u \<in> set (xs @ replicate (?i - length xs) JUndefined @ [v])" for u
      using that assms(1,2) JArr by auto
    ultimately show ?thesis unfolding c by simp
  next
    case False
    with assms(3) JArr show ?thesis by simp
  qed
qed (use assms in simp_all)

lemma distinct_keys_get_prop: "distinct_keys cur \<Longrightarrow> distinct_keys (get_prop cur k)"
proof (cases cur)
  case (JObj ps)
  assume "distinct_keys cur"
  then show ?thesis
    using JObj by (auto split: option.splits dest: distinct_keys_child [rotated])
qed auto

lemma place_step:
  assumes "place (seg # nxt # rest) val current = Inr c"
  obtains own cur' child where
    "has_own_property current seg = Inr own"
    "(if own then Inr current else set_prop current seg (JObj [])) = Inr cur'"
    "place (nxt # rest) val (get_prop cur' seg) = Inr child"
    "set_prop cur' seg child = Inr c"
  using assms by (auto simp: Let_def split: sum.splits cong: if_cong)

lemma distinct_keys_place:
  "distinct_keys cur \<Longrightarrow> distinct_keys val \<Longrightarrow> place path val cur = Inr c \<Longrightarrow> distinct_keys c"
proof (induction path val cur arbitrary: c rule: place.induct)
  case (1 val current)
  then show ?case by simp
next
  case (2 seg val current)
  then show ?case by (auto dest: distinct_keys_set_prop)
next
  case (3 seg nxt rest val current)
  from "3.prems"(3) obtain own cur' child where
    own: "has_own_property current seg = Inr own"
    and cur': "(if own then Inr current else set_prop current seg (JObj [])) = Inr cur'"
    and child: "place (nxt # rest) val (get_prop cur' seg) = Inr child"
    and c: "set_prop cur' seg child = Inr c"
    by (rule place_step)
  have d1: "distinct_keys cur'"
  proof (cases own)
    case True
    with cur' "3.prems"(1) show ?thesis by simp
  next
    case False
    with cur' have sp: "set_prop current seg (JObj []) = Inr cur'" by simp
    show ?thesis by (rule distinct_keys_set_prop [OF "3.prems"(1) _ sp]) simp
  qed
  have d2: "distinct_keys (get_prop cur' seg)" using d1 by (rule distinct_keys_get_prop)
  have "distinct_keys child"
    using "3.IH" [OF _ own _ d2 "3.prems"(2)] cur' child by (simp cong: if_cong)
  with d1 c show ?case by (auto dest: distinct_keys_set_prop)
qed

lemma distinct_keys_cast_value: "distinct_keys (cast_value raw)"
  by (auto simp: cast_value_def nativize_def split: option.splits)

lemma distinct_keys_reduce:
  assumes step: "\<And>acc k acc'. distinct_keys acc \<Longrightarrow> f acc k = Inr acc' \<Longrightarrow> distinct_keys acc'"
  shows "distinct_keys acc \<Longrightarrow> reduce_keys f ks acc = Inr r \<Longrightarrow> distinct_keys r"
proof (induction ks arbitrary: acc)
  case Nil
  then show ?case by simp
next
  case (Cons k ks)
  then show ?case by (auto split: sum.splits dest: step)
qed

lemma distinct_keys_configFromEnv:
  assumes "configFromEnv vars ns delimiter = Inr v"
  shows "distinct_keys v"
proof -
  have r: "reduce_keys (interpret_key (flatten vars ns) delimiter) (map fst (flatten vars ns)) (JObj []) = Inr v"
    using assms by (simp add: configFromEnv_def interpret_flat_def split: if_splits)
  show ?thesis
  proof (rule distinct_keys_reduce [OF _ _ r])
    fix acc k acc'
    assume "distinct_keys acc" "interpret_key (flatten vars ns) delimiter acc k = Inr acc'"
    then show "distinct_keys acc'"
      by (auto simp: interpret_key_def Let_def split: option.splits if_splits
          dest: distinct_keys_place [OF _ distinct_keys_cast_value])
  qed simp
qed

section \<open>Claims about the merge\<close>

lemma config_vals_sources:
  assumes "config_vals fs parse ns s delimiter = Inr [dflt, locals, secrets, vars]"
  shows "load_json fs parse (defaultsFile s) = Inr dflt"
    and "load_json fs parse (localsFile s) = Inr locals"
    and "load_secrets fs ns delimiter (secretsDir s) = Inr secrets"
    and "load_env ns delimiter (env s) = Inr vars"
  using assms by (auto simp: config_vals_def split: sum.splits)

lemma distinct_keys_load_json:
  assumes "load_json fs parse file = Inr v" "\<forall>c u. parse c = Some u \<longrightarrow> distinct_keys u"
  shows "distinct_keys v"
  using assms by (auto simp: load_json_def split: option.splits if_splits sum.splits)

lemma distinct_keys_load_secrets:
  assumes "load_secrets fs ns delimiter dir = Inr v"
  shows "distinct_keys v"
  using assms
  by (auto simp: load_secrets_def split: option.splits if_splits sum.splits
      dest: distinct_keys_configFromEnv)

lemma distinct_keys_load_env:
  assumes "load_env ns delimiter e = Inr v"
  shows "distinct_keys v"
  using assms by (auto simp: load_env_def split: option.splits dest: distinct_keys_configFromEnv)

lemma merged_config_unfold:
  "merged_config [dflt, locals, secrets, vars] =
   deepmerge2 (deepmerge2 (deepmerge2 dflt locals) secrets) vars"
  by (simp add: merged_config_def deepmerge_def)

text \<open>
  The order of the merge. Whenever the four sources load, the validator is given the merge
  of the four trees, and a value that is not an object (a leaf of the merge) at a key path is
  resolved in the order defaults < locals < secrets < env: the value the env tree holds at the
  path is the value of the merged config, whatever the other sources hold there; the value of
  the secrets tree is, when the env tree supplies nothing on the path; the value of the locals
  file is, when neither env nor secrets supply anything; and the value of the defaults file
  is, when no other source supplies anything. The hypothesis that the sources load asks, of
  a secrets directory, that each of its entries is a readable file under its bare name.
\<close>

theorem config_merge_precedence:
  assumes vals: "config_vals fs parse ns s delimiter = Inr [dflt, locals, secrets, vars]"
    and parse_ok: "\<forall>c u. parse c = Some u \<longrightarrow> distinct_keys u"
    and leaf: "\<not> is_object x"
    and path: "p \<noteq> []"
  shows "load_json fs parse (defaultsFile s) = Inr dflt
    \<and> load_json fs parse (localsFile s) = Inr locals
    \<and> load_secrets fs ns delimiter (secretsDir s) = Inr secrets
    \<and> load_env ns delimiter (env s) = Inr vars
    \<and> config fs parse stringify ns s (\<lambda>c. Inr c) delimiter
        = Inr (Deps (merged_config [dflt, locals, secrets, vars]))
    \<and> (get_path vars p = Some x
        \<longrightarrow> get_path (merged_config [dflt, locals, secrets, vars]) p = Some x)
    \<and> (absent vars p \<and> get_path secrets p = Some x
        \<longrightarrow> get_path (merged_config [dflt, locals, secrets, vars]) p = Some x)
    \<and> (absent vars p \<and> absent secrets p \<and> get_path locals p = Some x
        \<longrightarrow> get_path (merged_config [dflt, locals, secrets, vars]) p = Some x)
    \<and> (absent vars p \<and> absent secrets p \<and> absent locals p \<and> get_path dflt p = Some x
        \<longrightarrow> get_path (merged_config [dflt, locals, secrets, vars]) p = Some x)"
proof -
  note src = config_vals_sources [OF vals]
  have dv: "distinct_keys vars" using src(4) by (rule distinct_keys_load_env)
  have ds: "distinct_keys secrets" using src(3) by (rule distinct_keys_load_secrets)
  have dl: "distinct_keys locals" using src(2) parse_ok by (rule distinct_keys_load_json)
  let ?m = "merged_config [dflt, locals, secrets, vars]"
  have m: "?m = deepmerge2 (deepmerge2 (deepmerge2 dflt locals) secrets) vars"
    by (rule merged_config_unfold)
  have c: "config fs parse stringify ns s (\<lambda>c. Inr c) delimiter = Inr (Deps ?m)"
    using vals by (simp add: config_def)
  have e: "get_path ?m p = Some x" if "get_path vars p = Some x"
    unfolding m using that path leaf dv by (rule get_path_deepmerge2_right)
  have sec: "get_path ?m p = Some x" if "absent vars p" "get_path secrets p = Some x"
    unfolding m using that path leaf dv ds
    by (simp add: get_path_deepmerge2_absent get_path_deepmerge2_right)
  have loc: "get_path ?m p = Some x"
    if "absent vars p" "absent secrets p" "get_path locals p = Some x"
    unfolding m using that path leaf dv ds dl
    by (simp add: get_path_deepmerge2_absent get_path_deepmerge2_right)
  have def: "get_path ?m p = Some x"
    if "absent vars p" "absent secrets p" "absent locals p" "get_path dflt p = Some x"
    unfolding m using that dv ds dl
    by (simp add: get_path_deepmerge2_absent)
  from src c e sec loc def show ?thesis by blast
qed

text \<open>The theorem at a defaults file and an env map that both give \<open>port\<close>.\<close>

theorem config_merge_precedence_witness:
  "get_path
     (merged_config [JObj [(''port'', JStr ''d''), (''host'', JStr ''h'')], JObj [], JObj [],
        JObj [(''port'', JStr ''e'')]])
     [''port''] = Some (JStr ''e'')"
proof -
  let ?fs = "map_of [(''config.json'', File ''{}'')]"
  let ?parse = "\<lambda>c :: string. Some (JObj [(''port'', JStr ''d''), (''host'', JStr ''h'')])"
  let ?s = "\<lparr>env = Some [(''APP_port'', Some ''e'')], defaultsFile = Some ''config.json'',
     localsFile = None, secretsDir = None\<rparr>"
  have v: "config_vals ?fs ?parse ''APP_'' ?s ''_''
    = Inr [JObj [(''port'', JStr ''d''), (''host'', JStr ''h'')], JObj [], JObj [],
        JObj [(''port'', JStr ''e'')]]"
    by code_simp
  have p: "\<forall>c u. ?parse c = Some u \<longrightarrow> distinct_keys u" by simp
  show ?thesis
    using config_merge_precedence [OF v p, of "JStr ''e''" "[''port'']"] by simp
qed

text \<open>
  Claim C3 says that a key present in both the secrets directory and the env map resolves to
  the env value. With the secret \<open>/secrets/APP_x\<close> holding \<open>s\<close>, no file \<open>APP_x\<close> in the working
  directory and the env map \<open>{ APP_x: "e" }\<close>, the env map alone gives \<open>{ x: "e" }\<close>, but the
  secrets directory does not load: \<open>inflateSecretsDir\<close> reads the bare file name, \<open>readFileSync\<close>
  throws, and \<open>config\<close> throws with it before anything is merged, whatever the validator.
\<close>

theorem config_secrets_and_env_throws:
  "load_env ''APP_'' ''_'' (Some [(''APP_x'', Some ''e'')]) = Inr (JObj [(''x'', JStr ''e'')])
   \<and> load_secrets (map_of [(''/secrets'', Dir [''APP_x'']), (''/secrets/APP_x'', File ''s'')])
        ''APP_'' ''_'' (Some ''/secrets'') = Inl (ENOENT ''APP_x'')
   \<and> config (map_of [(''/secrets'', Dir [''APP_x'']), (''/secrets/APP_x'', File ''s'')])
        parse stringify ''APP_''
        \<lparr>env = Some [(''APP_x'', Some ''e'')], defaultsFile = None, localsFile = None,
         secretsDir = Some ''/secrets''\<rparr>
        check ''_'' = Inl (ENOENT ''APP_x'')"
proof -
  have e: "load_env ''APP_'' ''_'' (Some [(''APP_x'', Some ''e'')]) = Inr (JObj [(''x'', JStr ''e'')])"
    by code_simp
  have s: "load_secrets (map_of [(''/secrets'', Dir [''APP_x'']), (''/secrets/APP_x'', File ''s'')])
        ''APP_'' ''_'' (Some ''/secrets'') = Inl (ENOENT ''APP_x'')"
    by code_simp
  from e s show ?thesis
    by (simp add: config_def config_vals_def load_json_def)
qed

section \<open>Claims about the value interpreter\<close>

lemma cast_match_string:
  "\<not> list_ex is_line_terminator X \<Longrightarrow> cast_match (''<string>'' @ X) = Some (''string'', X)"
  by (simp add: cast_match_def)

lemma cast_match_boolean:
  "\<not> list_ex is_line_terminator X \<Longrightarrow> cast_match (''<boolean>'' @ X) = Some (''boolean'', X)"
  by (simp add: cast_match_def)

lemma cast_match_number:
  "\<not> list_ex is_line_terminator X \<Longrightarrow> cast_match (''<number>'' @ X) = Some (''number'', X)"
  by (simp add: cast_match_def)

text \<open>
  Away from line terminators the cast does what its documentation says. For every raw value
  \<open><string>X\<close> in which \<open>X\<close> holds no line terminator the value interpreter returns \<open>X\<close> as a
  string, with no inference; so \<open>APP_n="<string>5"\<close> gives \<open>{ n: "5" }\<close>. For every raw value
  \<open><boolean>X\<close> in which \<open>X\<close> holds no line terminator, native inference is applied to \<open>X\<close> and the
  result is coerced to a boolean.
\<close>

theorem cast_string_boolean:
  assumes "\<not> list_ex is_line_terminator X"
  shows "cast_value (''<string>'' @ X) = JStr X
    \<and> cast_value (''<boolean>'' @ X) = JBool (truthy (nativize X))
    \<and> configFromEnv [(''APP_n'', Some ''<string>5'')] ''APP_'' ''_'' = Inr (JObj [(''n'', JStr ''5'')])"
proof -
  have "configFromEnv [(''APP_n'', Some ''<string>5'')] ''APP_'' ''_'' = Inr (JObj [(''n'', JStr ''5'')])"
    by code_simp
  moreover have "cast_value (''<string>'' @ X) = JStr X"
    unfolding cast_value_def cast_match_string [OF assms] by simp
  moreover have "cast_value (''<boolean>'' @ X) = JBool (truthy (nativize X))"
    unfolding cast_value_def cast_match_boolean [OF assms] by simp
  ultimately show ?thesis by simp
qed

text \<open>The theorem at \<open>X = "5"\<close>.\<close>

theorem cast_string_boolean_witness:
  "cast_value (''<string>'' @ ''5'') = JStr ''5''
   \<and> cast_value (''<boolean>'' @ ''5'') = JBool (truthy (nativize ''5''))"
  using cast_string_boolean [of "''5''"] by (simp add: is_line_terminator_def)

text \<open>
  Claim C6 says that every raw value \<open><string>X\<close> comes back as the string \<open>X\<close>, and that every
  \<open><boolean>X\<close> is the inference of \<open>X\<close> coerced to a boolean. The pattern of the cast ends in
  \<open>(.*)$\<close> to take the rest of the value, but it has no \<open>s\<close> flag and \<open>.\<close> matches no line
  terminator. For \<open><string>5\<close> followed by a line feed the value is not read as a cast: the
  whole raw string comes back, its prefix \<open><string>\<close> included, also in the config tree of
  \<open>APP_n\<close>. For \<open><boolean>true\<close> followed by a line feed the result is the raw string too, not
  a boolean.
\<close>

theorem cast_string_line_terminator:
  "cast_value (''<string>5'' @ [CHR 0x0A]) = JStr (''<string>5'' @ [CHR 0x0A])
   \<and> cast_value (''<string>5'' @ [CHR 0x0A]) \<noteq> JStr (''5'' @ [CHR 0x0A])
   \<and> configFromEnv [(''APP_n'', Some (''<string>5'' @ [CHR 0x0A]))] ''APP_'' ''_''
       = Inr (JObj [(''n'', JStr (''<string>5'' @ [CHR 0x0A]))])
   \<and> cast_value (''<boolean>true'' @ [CHR 0x0A]) = JStr (''<boolean>true'' @ [CHR 0x0A])"
  by code_simp

text \<open>
  Away from line terminators an unparseable number cast gives not-a-number. For every raw
  value \<open><number>X\<close> in which \<open>X\<close> holds no line terminator and is not a numeric literal, the
  value interpreter (a total function: it raises nothing) gives the not-a-number value.
\<close>

theorem cast_number_unparseable:
  assumes "\<not> list_ex is_line_terminator X" and "string_to_number X = None"
  shows "cast_value (''<number>'' @ X) = JNum NaN"
  unfolding cast_value_def cast_match_number [OF assms(1)]
  using assms(2) by (simp add: Number_def)

text \<open>The theorem at \<open>X = "abc"\<close>.\<close>

theorem cast_number_unparseable_witness:
  "cast_value (''<number>'' @ ''abc'') = JNum NaN"
proof -
  have "string_to_number ''abc'' = None" by code_simp
  then show ?thesis
    using cast_number_unparseable [of "''abc''"] by (simp add: is_line_terminator_def)
qed

text \<open>
  Claim C9 says that every raw value \<open><number>X\<close> whose \<open>X\<close> is not parseable as a number gives
  the not-a-number value. For \<open>X\<close> the text \<open>abc\<close>, a line feed, \<open>def\<close>, which is no numeric
  literal, the pattern of the cast does not match (\<open>.\<close> matches no line terminator and there
  is no \<open>s\<close> flag): the interpreted value is the raw string, its prefix \<open><number>\<close> included, and
  not the not-a-number value.
\<close>

theorem cast_number_line_terminator:
  "string_to_number (''abc'' @ [CHR 0x0A] @ ''def'') = None
   \<and> cast_value (''<number>abc'' @ [CHR 0x0A] @ ''def'') = JStr (''<number>abc'' @ [CHR 0x0A] @ ''def'')
   \<and> cast_value (''<number>abc'' @ [CHR 0x0A] @ ''def'') \<noteq> JNum NaN"
  by code_simp

section \<open>Claims about the tree builder\<close>

text \<open>The child the loop creates: \<open>path[i + 1]\<close> is an element of the result of \<open>split\<close>, a
  string, so its \<open>typeof\<close> is never \<open>"number"\<close> and the child is never an array.\<close>

lemma array_branch_never_taken:
  "(if typeof (JStr nxt) = ''number'' then JArr [] else JObj []) = JObj []"
  by simp

text \<open>
  Claim C1 says that \<open>APP_items_0=a\<close> and \<open>APP_items_1=b\<close> give \<open>{ items: ["a", "b"] }\<close>, with an
  array node. The code gives an object keyed by \<open>"0"\<close> and \<open>"1"\<close>.
\<close>

theorem configFromEnv_items_is_object:
  "configFromEnv [(''APP_items_0'', Some ''a''), (''APP_items_1'', Some ''b'')] ''APP_'' ''_''
     = Inr (JObj [(''items'', JObj [(''0'', JStr ''a''), (''1'', JStr ''b'')])])"
  by code_simp

text \<open>
  Claim C10. For the environment map \<open>{ APP_x: undefined }\<close> the flat map holds \<open>undefined\<close>
  under \<open>x\<close>, the interpretation of the flat map throws a \<open>TypeError\<close>, and so does the whole
  of \<open>config\<close>, whatever the file system and the validator.
\<close>

theorem configFromEnv_undefined_value:
  "flatten [(''APP_x'', None)] ''APP_'' = [(''x'', None)]
   \<and> configFromEnv [(''APP_x'', None)] ''APP_'' ''_'' = Inl TypeError
   \<and> config fs parse stringify ''APP_''
        \<lparr>env = Some [(''APP_x'', None)], defaultsFile = None, localsFile = None, secretsDir = None\<rparr>
        check ''_'' = Inl TypeError"
proof -
  have "flatten [(''APP_x'', None)] ''APP_'' = [(''x'', None)]" by code_simp
  moreover have "configFromEnv [(''APP_x'', None)] ''APP_'' ''_'' = Inl TypeError" by code_simp
  ultimately show ?thesis
    by (simp add: config_def config_vals_def load_json_def load_secrets_def load_env_def)
qed

section \<open>Claims about the secrets directory\<close>

text \<open>
  Claim C4 says that a file of the secrets directory contributes its contents. The code reads
  \<open>readFileSync(f)\<close>, the bare file name, not the file in the directory: with the secret
  \<open>/secrets/APP_x\<close> holding \<open>1\<close> and no file \<open>APP_x\<close> in the working directory the call throws.
\<close>

theorem inflateSecretsDir_reads_working_directory:
  "readFileSync (map_of [(''/secrets'', Dir [''APP_x'']), (''/secrets/APP_x'', File ''1'')]) (''/secrets'' @ ''/'' @ ''APP_x'') = Inr ''1''
   \<and> inflateSecretsDir (map_of [(''/secrets'', Dir [''APP_x'']), (''/secrets/APP_x'', File ''1'')]) ''/secrets''
       = Inl (ENOENT ''APP_x'')"
  by code_simp

section \<open>Claims about the validator gate\<close>

text \<open>What the \<open>catch\<close> block does with an object named \<open>ValidationError\<close>, and with any other
  value that is neither \<open>null\<close> nor \<open>undefined\<close>.\<close>

lemma on_check_error_validation:
  assumes "map_of ps ''name'' = Some (JStr ''ValidationError'')"
  shows "on_check_error stringify (JObj ps) =
    JsError (''Invalid configuration: ''
      @ (if truthy (get_prop (JObj ps) ''key'') then to_string (get_prop (JObj ps) ''key'') @ '': '' else [])
      @ to_string (get_prop (JObj ps) ''message'')
      @ (if truthy (get_prop (JObj ps) ''details'')
         then [CHR 0x0A] @ ''Details: '' @ stringify (get_prop (JObj ps) ''details'') else []))"
  using assms by (simp add: on_check_error_def)

lemma on_check_error_other:
  assumes "e \<noteq> JNull" "e \<noteq> JUndefined" "field e ''name'' \<noteq> Inr (JStr ''ValidationError'')"
  shows "on_check_error stringify e = Thrown e"
  using assms by (cases e) (auto simp: on_check_error_def split: option.splits)

text \<open>
  Claim C8 says that an exception of the validator that has not the shape of a validation
  error is passed on unchanged. When the validator throws \<open>null\<close>, the \<open>catch\<close> block reads
  \<open>e.name\<close> and throws a \<open>TypeError\<close> of its own.
\<close>

theorem config_validator_throws_null:
  "config fs parse stringify ns
     \<lparr>env = None, defaultsFile = None, localsFile = None, secretsDir = None\<rparr>
     (\<lambda>c. Inl JNull) delimiter = Inl TypeError"
  by (simp add: config_def config_vals_def load_json_def load_secrets_def load_env_def on_check_error_def)

section \<open>Decimal numerals\<close>

lemma is_digit_digit_char: "d < 10 \<Longrightarrow> is_digit (digit_char d)"
  by (simp add: is_digit_def digit_char_def less_eq_char_def)

lemma radix_val_digit_char: "d < 10 \<Longrightarrow> radix_val (digit_char d) = d"
  by (simp add: radix_val_def digit_char_def less_eq_char_def)

lemma digit_char_radix_val: "is_digit c \<Longrightarrow> digit_char (radix_val c) = c"
proof -
  assume d: "is_digit c"
  then have "48 + radix_val c = of_char c" using radix_val_digit [of c] by simp
  then show ?thesis by (simp add: digit_char_def)
qed

lemma digit_char_0: "digit_char 0 = CHR ''0''"
  by code_simp

lemma radix_val_0: "radix_val (CHR ''0'') = 0"
  by code_simp

lemma digit_char_zero_iff: "d < 10 \<Longrightarrow> digit_char d = CHR ''0'' \<longleftrightarrow> d = 0"
proof
  assume "d < 10" "digit_char d = CHR ''0''"
  then have "radix_val (digit_char d) = radix_val (CHR ''0'')" by simp
  with \<open>d < 10\<close> show "d = 0" by (simp add: radix_val_digit_char radix_val_0)
qed (simp add: digit_char_0)

lemma show_nat_digits: "list_all is_digit (show_nat n)"
proof (induction n rule: show_nat.induct)
  case (1 n)
  show ?case
  proof (cases "n < 10")
    case True
    then show ?thesis by (simp add: show_nat.simps [of n] is_digit_digit_char)
  next
    case False
    then show ?thesis
      using 1 by (simp add: show_nat.simps [of n] is_digit_digit_char)
  qed
qed

lemma show_nat_nonempty: "show_nat n \<noteq> []"
  by (subst show_nat.simps) simp

lemma nat_of_digits_snoc: "nat_of_digits r (cs @ [c]) = r * nat_of_digits r cs + radix_val c"
  by (simp add: nat_of_digits_def)

lemma nat_of_digits_show_nat: "nat_of_digits 10 (show_nat n) = n"
proof (induction n rule: show_nat.induct)
  case (1 n)
  show ?case
  proof (cases "n < 10")
    case True
    then show ?thesis
      by (simp add: show_nat.simps [of n] nat_of_digits_def radix_val_digit_char)
  next
    case False
    then show ?thesis
      using 1 by (simp add: show_nat.simps [of n] nat_of_digits_snoc radix_val_digit_char)
  qed
qed

lemma hd_show_nat: "0 < n \<Longrightarrow> hd (show_nat n) \<noteq> CHR ''0''"
proof (induction n rule: show_nat.induct)
  case (1 n)
  show ?case
  proof (cases "n < 10")
    case True
    with "1.prems" show ?thesis
      by (simp add: show_nat.simps [of n] digit_char_zero_iff)
  next
    case False
    then have "0 < n div 10" by simp
    with False 1 show ?thesis
      by (simp add: show_nat.simps [of n] show_nat_nonempty)
  qed
qed

lemma show_nat_length_bounds:
  "0 < n \<Longrightarrow> 10 ^ (length (show_nat n) - 1) \<le> n \<and> n < 10 ^ length (show_nat n)"
proof (induction n rule: show_nat.induct)
  case (1 n)
  show ?case
  proof (cases "n < 10")
    case True
    with "1.prems" show ?thesis by (simp add: show_nat.simps [of n])
  next
    case False
    then have pos: "0 < n div 10" by simp
    let ?l = "length (show_nat (n div 10))"
    have l: "0 < ?l" using show_nat_nonempty [of "n div 10"] by simp
    from 1 False pos have ih: "10 ^ (?l - 1) \<le> n div 10" "n div 10 < 10 ^ ?l" by simp_all
    have len: "length (show_nat n) = Suc ?l"
      using False by (simp add: show_nat.simps [of n])
    have "10 * 10 ^ (?l - 1) \<le> 10 * (n div 10)" using ih(1) by simp
    also have "\<dots> \<le> n" by simp
    finally have lo: "10 ^ ?l \<le> n" using l by (cases ?l) simp_all
    have "n div 10 + 1 \<le> 10 ^ ?l" using ih(2) by simp
    then have "10 * (n div 10 + 1) \<le> 10 * 10 ^ ?l" by (rule mult_le_mono2)
    moreover have "n < 10 * (n div 10 + 1)" by simp
    ultimately have hi: "n < 10 ^ Suc ?l" by simp
    from lo hi show ?thesis by (simp add: len)
  qed
qed

lemma show_nat_times_10:
  assumes "0 < n"
  shows "show_nat (n * 10 ^ j) = show_nat n @ replicate j (CHR ''0'')"
proof (induction j)
  case 0
  show ?case by simp
next
  case (Suc j)
  let ?m = "n * 10 ^ j"
  have "0 < ?m" using assms by simp
  then have "\<not> ?m * 10 < 10" by simp
  then have "show_nat (?m * 10) = show_nat ?m @ [digit_char 0]"
    by (subst show_nat.simps) simp
  then show ?case
    by (simp add: Suc mult.assoc mult.commute [of 10] digit_char_0 replicate_append_same)
qed

lemma show_nat_length_le: "n < 10 ^ j \<Longrightarrow> 0 < j \<Longrightarrow> length (show_nat n) \<le> j"
proof (cases "n = 0")
  case True
  assume "0 < j"
  with True show ?thesis by (simp add: show_nat.simps [of 0])
next
  case False
  assume "n < 10 ^ j"
  moreover from False have "10 ^ (length (show_nat n) - 1) \<le> n"
    using show_nat_length_bounds [of n] by simp
  ultimately have "(10::nat) ^ (length (show_nat n) - 1) < 10 ^ j" by linarith
  then have "length (show_nat n) - 1 < j" by simp
  then show ?thesis by linarith
qed

text \<open>A digit string with no leading zero is the numeral of its value.\<close>

lemma nat_of_digits_pos:
  "ds \<noteq> [] \<Longrightarrow> list_all is_digit ds \<Longrightarrow> hd ds \<noteq> CHR ''0'' \<Longrightarrow> 0 < nat_of_digits 10 ds"
proof (cases ds)
  case Nil
  assume "ds \<noteq> []"
  with Nil show ?thesis by simp
next
  case (Cons c cs)
  assume "list_all is_digit ds" "hd ds \<noteq> CHR ''0''"
  with Cons have "is_digit c" "c \<noteq> CHR ''0''" by simp_all
  then have "radix_val c \<noteq> 0"
  proof -
    assume d: "is_digit c" and nz: "c \<noteq> CHR ''0''"
    show ?thesis
    proof
      assume "radix_val c = 0"
      then have "digit_char 0 = c" using digit_char_radix_val [OF d] by simp
      with nz show False by (simp add: digit_char_0)
    qed
  qed
  then show ?thesis by (simp add: Cons nat_of_digits_Cons)
qed

lemma show_nat_nat_of_digits:
  "ds \<noteq> [] \<Longrightarrow> list_all is_digit ds \<Longrightarrow> ds = ''0'' \<or> hd ds \<noteq> CHR ''0'' \<Longrightarrow>
   show_nat (nat_of_digits 10 ds) = ds"
proof (induction ds rule: rev_induct)
  case Nil
  then show ?case by simp
next
  case (snoc c ds)
  have c: "is_digit c" using snoc.prems by simp
  then have c9: "radix_val c < 10" using radix_val_digit_le [of c] by simp
  show ?case
  proof (cases "ds = []")
    case True
    then show ?thesis
      using c c9 by (simp add: nat_of_digits_def show_nat.simps [of "radix_val c"] digit_char_radix_val)
  next
    case False
    then have hd: "hd ds \<noteq> CHR ''0''" using snoc.prems by (cases ds) auto
    have dg: "list_all is_digit ds" using snoc.prems by simp
    have pos: "0 < nat_of_digits 10 ds" using False dg hd by (rule nat_of_digits_pos)
    have ih: "show_nat (nat_of_digits 10 ds) = ds" using snoc.IH False dg hd by simp
    let ?v = "10 * nat_of_digits 10 ds + radix_val c"
    have "\<not> ?v < 10" using pos by simp
    moreover have "?v div 10 = nat_of_digits 10 ds" using c9 by simp
    moreover have "?v mod 10 = radix_val c" using c9 by simp
    ultimately have "show_nat ?v = show_nat (nat_of_digits 10 ds) @ [digit_char (radix_val c)]"
      by (subst show_nat.simps) simp
    then show ?thesis
      using ih c by (simp add: nat_of_digits_snoc digit_char_radix_val)
  qed
qed

section \<open>Logarithms of natural numbers\<close>

lemma floorlog_one: "1 < b \<Longrightarrow> floorlog b (Suc 0) = Suc 0"
  by (simp add: floorlog_def)

lemma floor_log_of_nat:
  assumes "0 < N" "1 < b"
  shows "floor_log b (of_nat N) = int (floorlog b N) - 1"
proof -
  have pos: "0 < floorlog b N" using assms by (simp add: floorlog_def)
  have "b ^ (floorlog b N - 1) \<le> N" using floorlog_bounds [OF assms] by simp
  then have "(of_nat (b ^ (floorlog b N - 1)) :: rat) \<le> of_nat N" by (simp only: of_nat_le_iff)
  then have le: "(of_nat b :: rat) ^ (floorlog b N - 1) \<le> of_nat N" by (simp only: of_nat_power)
  have k: "int (floorlog b N) - int (floorlog b 1) = int (floorlog b N - 1)"
    using pos assms(2) by (simp add: floorlog_one)
  have "floor_log b (of_nat N) =
    (if (of_nat b :: rat) powi (int (floorlog b N) - int (floorlog b 1)) \<le> of_nat N
     then int (floorlog b N) - int (floorlog b 1) else int (floorlog b N) - int (floorlog b 1) - 1)"
    by (simp add: floor_log_def Let_def)
  also have "\<dots> = int (floorlog b N - 1)"
    unfolding k power_int_of_nat using le by simp
  finally show ?thesis using pos by simp
qed

lemma length_show_nat:
  assumes "0 < n"
  shows "length (show_nat n) = floorlog 10 n"
proof (rule antisym)
  have b: "10 ^ (length (show_nat n) - 1) \<le> n" "n < 10 ^ length (show_nat n)"
    using show_nat_length_bounds [OF assms] by simp_all
  show "length (show_nat n) \<le> floorlog 10 n" using b(1) by (intro floorlog_geI) simp_all
  show "floorlog 10 n \<le> length (show_nat n)" using b(2) by (intro floorlog_leI) simp_all
qed

lemma floor_log_10_of_nat:
  "0 < n \<Longrightarrow> floor_log 10 (of_nat n) + 1 = int (length (show_nat n))"
  by (simp add: floor_log_of_nat length_show_nat)

section \<open>Rounding to a double\<close>

lemma round_half_even_of_int [simp]: "round_half_even (of_int i) = i"
  by (simp add: round_half_even_def)

lemma round_half_even_of_nat [simp]: "round_half_even (of_nat n) = int n"
  using round_half_even_of_int [of "int n"] by simp

lemma round_half_even_ge: "of_int a \<le> q \<Longrightarrow> a \<le> round_half_even q"
proof -
  assume "of_int a \<le> q"
  then have "a \<le> \<lfloor>q\<rfloor>" by (simp add: le_floor_iff)
  then show ?thesis by (auto simp: round_half_even_def Let_def)
qed

lemma round_half_even_le: "q \<le> of_int b \<Longrightarrow> round_half_even q \<le> b"
proof (cases "q = of_int b")
  case True
  then show ?thesis by simp
next
  case False
  assume "q \<le> of_int b"
  with False have "q < of_int b" by simp
  then have "\<lfloor>q\<rfloor> < b" by (simp add: floor_less_iff)
  then show ?thesis by (auto simp: round_half_even_def Let_def)
qed

lemma overflow_bound_gt: "(2::rat) ^ 53 < overflow_bound"
  by (simp add: overflow_bound_def)

lemma round_mag_small:
  assumes "0 < z" "z < 2 ^ 53"
  shows "round_mag (of_nat z) = Some (of_nat z)"
proof -
  let ?fl = "floorlog 2 z"
  have fl1: "0 < ?fl" using assms by (simp add: floorlog_def)
  have fl2: "?fl \<le> 53" using assms by (intro floorlog_leI) simp_all
  define j where "j = 53 - ?fl"
  have ex: "max (floor_log 2 (of_nat z) - 52) (- 1074) = - int j"
    using fl1 fl2 assms by (simp add: floor_log_of_nat j_def)
  have p: "(2::rat) powi (- int j) = 1 / 2 ^ j"
    by (simp add: power_int_minus_divide)
  have "(of_nat z :: rat) / 2 powi (- int j) = of_nat (z * 2 ^ j)"
    by (simp add: p)
  then have r: "round_half_even ((of_nat z :: rat) / 2 powi (- int j)) = int (z * 2 ^ j)"
    by (simp only: round_half_even_of_nat)
  have v: "of_int (int (z * 2 ^ j)) * (2::rat) powi (- int j) = of_nat z"
    by (simp add: p)
  have "(of_nat z :: rat) < 2 ^ 53" using assms(2) by (metis of_nat_less_iff of_nat_numeral of_nat_power)
  then have "\<not> overflow_bound \<le> (of_nat z :: rat)" using overflow_bound_gt by linarith
  then show ?thesis
    using assms(1) unfolding round_mag_def ex Let_def r v by simp
qed

lemma round_mag_exact_strict:
  assumes M: "2 ^ 52 \<le> M" "M < 2 ^ 53" and nov: "(of_nat (M * 2 ^ j) :: rat) < overflow_bound"
  shows "round_mag (of_nat (M * 2 ^ j)) = Some (of_nat (M * 2 ^ j))"
proof -
  let ?N = "M * 2 ^ j"
  have Npos: "0 < ?N" using M by simp
  have lo: "2 ^ (52 + j) \<le> ?N"
    using M(1) unfolding power_add by (rule mult_le_mono1)
  have hi: "?N < 2 ^ (53 + j)"
    using M(2) unfolding power_add by simp
  have "floorlog 2 ?N = 53 + j"
  proof (rule antisym)
    show "floorlog 2 ?N \<le> 53 + j" using hi by (intro floorlog_leI) simp_all
    show "53 + j \<le> floorlog 2 ?N" using lo by (intro floorlog_geI) simp_all
  qed
  moreover have "floor_log 2 (of_nat ?N) = int (floorlog 2 ?N) - 1"
    using Npos by (rule floor_log_of_nat) simp
  ultimately have ex: "max (floor_log 2 (of_nat ?N) - 52) (- 1074) = int j"
    by (simp only:)
  have "(of_nat ?N :: rat) / 2 powi (int j) = of_nat M"
    by simp
  then have r: "round_half_even ((of_nat ?N :: rat) / 2 powi (int j)) = int M"
    by (simp only: round_half_even_of_nat)
  have v: "of_int (int M) * (2::rat) powi (int j) = of_nat ?N"
    by simp
  have ne: "(of_nat ?N :: rat) \<noteq> 0" using Npos by (simp only: of_nat_eq_0_iff)
  show ?thesis
    unfolding round_mag_def ex Let_def r v using ne nov by simp
qed

lemma round_mag_exact:
  assumes M: "2 ^ 52 \<le> M" "M \<le> 2 ^ 53" and nov: "(of_nat (M * 2 ^ j) :: rat) < overflow_bound"
  shows "round_mag (of_nat (M * 2 ^ j)) = Some (of_nat (M * 2 ^ j))"
proof (cases "M = 2 ^ 53")
  case True
  have eq: "M * 2 ^ j = 2 ^ 52 * 2 ^ Suc j" unfolding True by simp
  have "round_mag (of_nat (2 ^ 52 * 2 ^ Suc j)) = Some (of_nat (2 ^ 52 * 2 ^ Suc j))"
    using nov unfolding eq by (intro round_mag_exact_strict) simp_all
  then show ?thesis unfolding eq .
next
  case False
  with M nov show ?thesis by (intro round_mag_exact_strict) simp_all
qed

lemma round_mag_large:
  assumes z: "2 ^ 53 \<le> z" and q: "round_mag (of_nat z) = Some q"
  shows "\<exists>M j. q = of_nat (M * 2 ^ j) \<and> 2 ^ 52 \<le> M \<and> M \<le> 2 ^ 53 \<and> 0 < j \<and> q < overflow_bound"
proof -
  let ?fl = "floorlog 2 z"
  have zpos: "0 < z" using z by (simp add: less_le_trans [of 0 "2 ^ 53"])
  have "54 \<le> ?fl" using z by (intro floorlog_geI) simp_all
  define j where "j = ?fl - 53"
  have j: "0 < j" "?fl = 53 + j" using \<open>54 \<le> ?fl\<close> by (simp_all add: j_def)
  have b: "2 ^ (52 + j) \<le> z" "z < 2 ^ (53 + j)"
    using floorlog_bounds [of z 2] zpos j(2) by simp_all
  have ex: "max (floor_log 2 (of_nat z) - 52) (- 1074) = int j"
    using zpos j(2) by (simp add: floor_log_of_nat)
  let ?x = "(of_nat z :: rat) / 2 powi (int j)"
  define M where "M = nat (round_half_even ?x)"
  have "(of_nat (2 ^ 52 * 2 ^ j) :: rat) \<le> of_nat z"
    using b(1) unfolding power_add by (simp only: of_nat_le_iff)
  then have "(2 ^ 52 :: rat) \<le> ?x" by (simp add: pos_le_divide_eq)
  then have "of_int (2 ^ 52) \<le> ?x" by simp
  then have g: "2 ^ 52 \<le> round_half_even ?x" by (rule round_half_even_ge)
  have "(of_nat z :: rat) < of_nat (2 ^ 53 * 2 ^ j)"
    using b(2) unfolding power_add by (simp only: of_nat_less_iff)
  then have "?x \<le> 2 ^ 53" by (simp add: pos_divide_le_eq)
  then have "?x \<le> of_int (2 ^ 53)" by simp
  then have l: "round_half_even ?x \<le> 2 ^ 53" by (rule round_half_even_le)
  have Mint: "int M = round_half_even ?x" using g by (simp add: M_def)
  have M: "2 ^ 52 \<le> M" "M \<le> 2 ^ 53"
    using g l unfolding M_def by (simp_all add: le_nat_iff nat_le_iff)
  have v: "of_int (round_half_even ?x) * (2::rat) powi (int j) = of_nat (M * 2 ^ j)"
    unfolding Mint [symmetric] by simp
  from q have "q = of_nat (M * 2 ^ j) \<and> q < overflow_bound"
    using zpos unfolding round_mag_def ex Let_def v by (auto split: if_splits)
  with M j(1) show ?thesis by blast
qed

lemma round_mag_idem:
  assumes "0 < z" "round_mag (of_nat z) = Some q"
  shows "\<exists>N. q = of_nat N \<and> 0 < N \<and> round_mag (of_nat N) = Some (of_nat N)
    \<and> (z < 2 ^ 53 \<longrightarrow> N = z) \<and> (2 ^ 53 \<le> z \<longrightarrow> 2 ^ 53 \<le> N)"
proof (cases "z < 2 ^ 53")
  case True
  with assms round_mag_small [of z] show ?thesis by auto
next
  case False
  then have z: "2 ^ 53 \<le> z" by simp
  from round_mag_large [OF z assms(2)] obtain M j where
    q: "q = of_nat (M * 2 ^ j)" and M: "2 ^ 52 \<le> M" "M \<le> 2 ^ 53" and j: "0 < j"
    and nov: "q < overflow_bound" by blast
  have "round_mag (of_nat (M * 2 ^ j)) = Some (of_nat (M * 2 ^ j))"
    using M nov unfolding q by (rule round_mag_exact)
  moreover have "(2::nat) ^ 1 \<le> 2 ^ j"
    using j by (intro power_increasing) simp_all
  with M(1) have "(2::nat) ^ 52 * 2 ^ 1 \<le> M * 2 ^ j"
    by (rule mult_le_mono)
  then have "2 ^ 53 \<le> M * 2 ^ j" by simp
  moreover have "0 < M * 2 ^ j" using M(1) by simp
  ultimately show ?thesis using q z by (intro exI [of _ "M * 2 ^ j"]) simp
qed

section \<open>Doubles of natural numbers\<close>

lemma to_double_zero [simp]: "to_double neg 0 = Finite neg 0"
  by (simp add: to_double_def round_mag_def)

lemma to_double_small:
  "z < 2 ^ 53 \<Longrightarrow> to_double neg (of_nat z) = Finite neg (of_nat z)"
proof (cases "z = 0")
  case True
  then show ?thesis by simp
next
  case False
  assume "z < 2 ^ 53"
  with False show ?thesis by (simp add: to_double_def round_mag_small)
qed

lemma to_double_eq_small_iff:
  assumes "0 < m" "m < 2 ^ 53"
  shows "to_double False (of_nat x) = Finite False (of_nat m) \<longleftrightarrow> x = m"
proof (cases "x < 2 ^ 53")
  case True
  then show ?thesis by (simp add: to_double_small)
next
  case False
  then have x: "2 ^ 53 \<le> x" "0 < x" by simp_all
  have "to_double False (of_nat x) \<noteq> Finite False (of_nat m)"
  proof (cases "round_mag (of_nat x)")
    case None
    then show ?thesis by (simp add: to_double_def)
  next
    case (Some q)
    from round_mag_idem [OF x(2) Some] x(1) obtain N where "q = of_nat N" "2 ^ 53 \<le> N"
      by blast
    with assms(2) have "q \<noteq> of_nat m" by simp
    with Some show ?thesis by (simp add: to_double_def)
  qed
  with False assms(2) show ?thesis by auto
qed

section \<open>The digits of a safe integer\<close>

lemma safe_length:
  assumes "0 < m" "m < 2 ^ 53"
  shows "length (show_nat m) \<le> 16"
proof -
  have "m < 10 ^ 16" using assms(2) by simp
  then show ?thesis by (rule show_nat_length_le) simp
qed

lemma digits_candidate_safe:
  assumes m: "0 < m" "m < 2 ^ 53" and k: "k \<le> length (show_nat m)"
  shows "digits_candidate (of_nat m) (int (length (show_nat m))) k =
    (if 10 ^ (length (show_nat m) - k) dvd m then Some (m div 10 ^ (length (show_nat m) - k), int (length (show_nat m))) else None)"
proof -
  let ?L = "length (show_nat m)"
  let ?d = "10 ^ (?L - k) :: nat"
  let ?lo = "m div ?d"
  have scale: "(10::rat) powi (int ?L - int k) = of_nat ?d"
    using k by (simp add: of_nat_diff [symmetric] del: of_nat_diff)
  have lo: "nat \<lfloor>(of_nat m :: rat) / of_nat ?d\<rfloor> = ?lo"
    by (simp only: floor_divide_of_nat_eq nat_int)
  have lo_le: "?lo * ?d \<le> m" by simp
  have hi_gt: "m < (?lo + 1) * ?d"
    using div_less_dividend dividend_less_div_times [of ?d m] by (simp add: algebra_simps)
  have ok_lo: "to_double False (of_nat ?lo * of_nat ?d) = Finite False (of_nat m) \<longleftrightarrow> ?d dvd m"
  proof -
    have "of_nat ?lo * of_nat ?d = (of_nat (?lo * ?d) :: rat)" by simp
    then have "to_double False (of_nat ?lo * of_nat ?d) = Finite False (of_nat m) \<longleftrightarrow> ?lo * ?d = m"
      using to_double_eq_small_iff [OF m, of "?lo * ?d"] by (simp only:)
    also have "\<dots> \<longleftrightarrow> ?d dvd m" by (metis dvd_div_mult_self dvd_triv_right)
    finally show ?thesis .
  qed
  have ok_hi: "to_double False (of_nat (?lo + 1) * of_nat ?d) \<noteq> Finite False (of_nat m)"
  proof -
    have "of_nat (?lo + 1) * of_nat ?d = (of_nat ((?lo + 1) * ?d) :: rat)" by (simp only: of_nat_mult)
    moreover have "(?lo + 1) * ?d \<noteq> m" using hi_gt by simp
    ultimately show ?thesis
      using to_double_eq_small_iff [OF m, of "(?lo + 1) * ?d"] by (simp only:) simp
  qed
  have "m < 10 ^ ?L" using show_nat_length_bounds [OF m(1)] by simp
  also have "\<dots> = 10 ^ k * ?d" using k by (simp add: power_add [symmetric])
  finally have "?lo < 10 ^ k" by (simp add: less_mult_imp_div_less)
  then have ne: "?lo \<noteq> 10 ^ k" by simp
  show ?thesis
    unfolding digits_candidate_def scale lo Let_def using ok_lo ok_hi ne by simp
qed

lemma shortest_digits_safe:
  assumes m: "0 < m" "m < 2 ^ 53"
  shows "1 \<le> a \<Longrightarrow> a \<le> length (show_nat m) \<Longrightarrow>
    \<exists>j. 10 ^ j dvd m \<and>
      shortest_digits (of_nat m) (int (length (show_nat m))) [a..<18] = (m div 10 ^ j, int (length (show_nat m)))"
proof (induction "length (show_nat m) - a" arbitrary: a)
  case 0
  then have a: "a = length (show_nat m)" by simp
  have "a < 18" using safe_length [OF m] a by simp
  then have "[a..<18] = a # [Suc a..<18]" by (rule upt_conv_Cons)
  then show ?case
    using digits_candidate_safe [OF m, of a] a by (intro exI [of _ 0]) simp
next
  case (Suc d)
  then have a: "a < length (show_nat m)" by simp
  have "a < 18" using safe_length [OF m] a by simp
  then have upt: "[a..<18] = a # [Suc a..<18]" by (rule upt_conv_Cons)
  show ?case
  proof (cases "10 ^ (length (show_nat m) - a) dvd m")
    case True
    then show ?thesis
      using digits_candidate_safe [OF m, of a] a upt
      by (intro exI [of _ "length (show_nat m) - a"]) simp
  next
    case False
    have "\<exists>j. 10 ^ j dvd m \<and>
      shortest_digits (of_nat m) (int (length (show_nat m))) [Suc a..<18] = (m div 10 ^ j, int (length (show_nat m)))"
      using Suc.hyps(2) a by (intro Suc.hyps(1)) simp_all
    then show ?thesis
      using False digits_candidate_safe [OF m, of a] a upt by simp
  qed
qed

lemma positive_to_string_safe:
  assumes m: "0 < m" "m < 2 ^ 53"
  shows "positive_to_string (of_nat m) = show_nat m"
proof -
  let ?L = "length (show_nat m)"
  have L: "1 \<le> ?L" using show_nat_nonempty [of m] by (cases "show_nat m") simp_all
  obtain j where j: "10 ^ j dvd m"
    and sd: "shortest_digits (of_nat m) (int ?L) [1..<18] = (m div 10 ^ j, int ?L)"
    using shortest_digits_safe [OF m order_refl L] by blast
  let ?s = "m div 10 ^ j"
  have ms: "m = ?s * 10 ^ j" using j by simp
  have spos: "0 < ?s" using m(1) ms by (metis mult_0 neq0_conv)
  have sh: "show_nat m = show_nat ?s @ replicate j (CHR ''0'')"
    using show_nat_times_10 [OF spos, of j] ms by simp
  then have len: "?L = length (show_nat ?s) + j" by (metis length_append length_replicate)
  have L21: "int ?L \<le> 21" using safe_length [OF m] by simp
  have n: "floor_log 10 (of_nat m) + 1 = int ?L" using m(1) by (rule floor_log_10_of_nat)
  have "positive_to_string (of_nat m) = show_nat ?s @ replicate (nat (int ?L - int (length (show_nat ?s)))) (CHR ''0'')"
    unfolding positive_to_string_def n sd using len L21 by (simp add: Let_def)
  also have "\<dots> = show_nat ?s @ replicate j (CHR ''0'')" using len by simp
  finally show ?thesis using sh by simp
qed

section \<open>The shape of \<open>Number::toString\<close> on a natural number\<close>

lemma candidate_floor_bounds:
  assumes N: "0 < N" and k: "1 \<le> k"
  shows "10 ^ (k - 1) \<le> nat \<lfloor>(of_nat N :: rat) / 10 powi (int (length (show_nat N)) - int k)\<rfloor>
    \<and> nat \<lfloor>(of_nat N :: rat) / 10 powi (int (length (show_nat N)) - int k)\<rfloor> < 10 ^ k"
proof -
  let ?L = "length (show_nat N)"
  let ?sc = "(10::rat) powi (int ?L - int k)"
  let ?x = "(of_nat N :: rat) / ?sc"
  have L: "1 \<le> ?L" using show_nat_nonempty [of N] by (cases "show_nat N") simp_all
  have b: "10 ^ (?L - 1) \<le> N" "N < 10 ^ ?L" using show_nat_length_bounds [OF N] by simp_all
  have sc: "0 < ?sc" by (simp add: zero_less_power_int)
  have "(10::rat) powi (int ?L - int k + int (k - 1)) = ?sc * 10 powi int (k - 1)"
    by (rule power_int_add) simp
  moreover have "int ?L - int k + int (k - 1) = int (?L - 1)" using k L by simp
  ultimately have e1: "?sc * 10 ^ (k - 1) = 10 ^ (?L - 1)" by (simp only: power_int_of_nat)
  have "(10::rat) powi (int ?L - int k + int k) = ?sc * 10 powi int k"
    by (rule power_int_add) simp
  moreover have "int ?L - int k + int k = int ?L" by simp
  ultimately have e2: "?sc * 10 ^ k = 10 ^ ?L" by (simp only: power_int_of_nat)
  have "(of_nat (10 ^ (?L - 1)) :: rat) \<le> of_nat N" using b(1) by (simp only: of_nat_le_iff)
  then have "?sc * 10 ^ (k - 1) \<le> of_nat N" unfolding e1 by simp
  then have "(10 ^ (k - 1) :: rat) \<le> ?x" using sc by (simp add: pos_le_divide_eq mult.commute)
  then have "(of_int (10 ^ (k - 1)) :: rat) \<le> ?x" by simp
  then have lo: "10 ^ (k - 1) \<le> \<lfloor>?x\<rfloor>" by (simp only: le_floor_iff)
  have "(of_nat N :: rat) < of_nat (10 ^ ?L)" using b(2) by (simp only: of_nat_less_iff)
  then have "of_nat N < ?sc * 10 ^ k" unfolding e2 by simp
  then have "?x < 10 ^ k" using sc by (simp add: pos_divide_less_eq mult.commute)
  then have "?x < of_int (10 ^ k)" by simp
  then have hi: "\<lfloor>?x\<rfloor> < 10 ^ k" by (simp only: floor_less_iff)
  have "0 \<le> \<lfloor>?x\<rfloor>" using lo by (rule order_trans [rotated]) simp
  with lo hi show ?thesis by (simp add: le_nat_iff nat_less_iff)
qed

lemma digits_candidate_bounds:
  assumes N: "0 < N" and k: "1 \<le> k"
    and c: "digits_candidate (of_nat N) (int (length (show_nat N))) k = Some (s, n)"
  shows "0 < s \<and> s < 10 ^ k \<and> (n = int (length (show_nat N)) \<or> n = int (length (show_nat N)) + 1)"
proof -
  define lo where "lo = nat \<lfloor>(of_nat N :: rat) / 10 powi (int (length (show_nat N)) - int k)\<rfloor>"
  have b: "10 ^ (k - 1) \<le> lo" "lo < 10 ^ k"
    using candidate_floor_bounds [OF N k] unfolding lo_def by blast+
  have p: "(0::nat) < 10 ^ (k - 1)" by simp
  then have lo: "0 < lo" using b(1) by (rule less_le_trans)
  have small: "(10::nat) ^ (k - 1) < 10 ^ k" using k by (simp add: power_strict_increasing)
  from c have "(s = 10 ^ (k - 1) \<or> ((s = lo \<or> s = lo + 1) \<and> s \<noteq> 10 ^ k))
      \<and> (n = int (length (show_nat N)) \<or> n = int (length (show_nat N)) + 1)"
    unfolding digits_candidate_def Let_def lo_def [symmetric] by (auto split: if_splits)
  with lo b(2) p small show ?thesis by auto
qed

lemma shortest_digits_bounds:
  assumes N: "0 < N"
  shows "\<forall>k \<in> set ks. 1 \<le> k \<and> k \<le> 17 \<Longrightarrow>
    shortest_digits (of_nat N) (int (length (show_nat N))) ks = (s, n) \<Longrightarrow>
    0 < s \<and> s < 10 ^ 17 \<and> (n = int (length (show_nat N)) \<or> n = int (length (show_nat N)) + 1)"
proof (induction ks)
  case Nil
  define lo where "lo = nat \<lfloor>(of_nat N :: rat) / 10 powi (int (length (show_nat N)) - int 17)\<rfloor>"
  have "10 ^ (17 - 1) \<le> lo \<and> lo < 10 ^ 17"
    unfolding lo_def using N by (rule candidate_floor_bounds) simp
  then have "0 < lo" "lo < 10 ^ 17" by simp_all
  moreover have "s = lo" "n = int (length (show_nat N))"
    using Nil.prems(2) unfolding lo_def by auto
  ultimately show ?case by simp
next
  case (Cons k ks)
  show ?case
  proof (cases "digits_candidate (of_nat N) (int (length (show_nat N))) k")
    case None
    with Cons show ?thesis by simp
  next
    case (Some r)
    with Cons.prems(2) have c: "digits_candidate (of_nat N) (int (length (show_nat N))) k = Some (s, n)"
      by simp
    have k: "1 \<le> k" "k \<le> 17" using Cons.prems(1) by simp_all
    from digits_candidate_bounds [OF N k(1) c] have "0 < s" "s < 10 ^ k"
      and n: "n = int (length (show_nat N)) \<or> n = int (length (show_nat N)) + 1" by simp_all
    moreover have "(10::nat) ^ k \<le> 10 ^ 17" using k(2) by (intro power_increasing) simp_all
    ultimately show ?thesis by linarith
  qed
qed

lemma digits_candidate_self:
  assumes N: "0 < N" and rep: "round_mag (of_nat N) = Some (of_nat N)"
  shows "digits_candidate (of_nat N) (int (length (show_nat N))) (length (show_nat N)) \<noteq> None"
proof -
  have "to_double False (of_nat (nat \<lfloor>(of_nat N :: rat)\<rfloor>)) = Finite False (of_nat N)"
    using rep by (simp add: to_double_def)
  then show ?thesis
    unfolding digits_candidate_def Let_def by simp
qed

lemma shortest_digits_short:
  assumes N: "0 < N" and rep: "round_mag (of_nat N) = Some (of_nat N)"
    and L: "length (show_nat N) \<le> 17"
  shows "1 \<le> a \<Longrightarrow> a \<le> length (show_nat N) \<Longrightarrow>
    shortest_digits (of_nat N) (int (length (show_nat N))) [a..<18] = (s, n) \<Longrightarrow>
    s < 10 ^ length (show_nat N)"
proof (induction "length (show_nat N) - a" arbitrary: a)
  case 0
  then have a: "a = length (show_nat N)" by simp
  have "a < 18" using L a by simp
  then have upt: "[a..<18] = a # [Suc a..<18]" by (rule upt_conv_Cons)
  from digits_candidate_self [OF N rep] obtain r where
    r: "digits_candidate (of_nat N) (int (length (show_nat N))) a = Some r"
    unfolding a by auto
  with "0.prems"(3) upt have "digits_candidate (of_nat N) (int (length (show_nat N))) a = Some (s, n)"
    by simp
  from digits_candidate_bounds [OF N "0.prems"(1) this] show ?case using a by simp
next
  case (Suc d)
  then have a: "a < length (show_nat N)" by simp
  have "a < 18" using L a by simp
  then have upt: "[a..<18] = a # [Suc a..<18]" by (rule upt_conv_Cons)
  show ?case
  proof (cases "digits_candidate (of_nat N) (int (length (show_nat N))) a")
    case None
    with Suc.prems(3) upt
    have "shortest_digits (of_nat N) (int (length (show_nat N))) [Suc a..<18] = (s, n)" by simp
    then show ?thesis
      using Suc.hyps(2) a by (intro Suc.hyps(1)) simp_all
  next
    case (Some r)
    with Suc.prems(3) upt have "digits_candidate (of_nat N) (int (length (show_nat N))) a = Some (s, n)"
      by simp
    from digits_candidate_bounds [OF N Suc.prems(1) this] have "s < 10 ^ a" by simp
    moreover have "(10::nat) ^ a \<le> 10 ^ length (show_nat N)"
      using a by (intro power_increasing) simp_all
    ultimately show ?thesis by linarith
  qed
qed

lemma positive_to_string_shape:
  assumes N: "0 < N" and rep: "round_mag (of_nat N) = Some (of_nat N)"
  shows "(N < 10 ^ 21 \<and> (\<exists>s j. 0 < s \<and> positive_to_string (of_nat N) = show_nat s @ replicate j (CHR ''0'')))
       \<or> (10 ^ 20 \<le> N \<and> (\<exists>d c rest. is_digit d \<and> (c = CHR ''.'' \<or> c = CHR ''e'')
            \<and> positive_to_string (of_nat N) = d # c # rest))"
proof -
  define L where "L = length (show_nat N)"
  have fl: "floor_log 10 (of_nat N) + 1 = int L"
    unfolding L_def using N by (rule floor_log_10_of_nat)
  obtain s n where sd: "shortest_digits (of_nat N) (int L) [1..<18] = (s, n)"
    by (cases "shortest_digits (of_nat N) (int L) [1..<18]")
  have b: "0 < s \<and> s < 10 ^ 17 \<and> (n = int L \<or> n = int L + 1)"
    using shortest_digits_bounds [OF N _ sd [unfolded L_def]] unfolding L_def by auto
  have Lpos: "0 < L" unfolding L_def using show_nat_nonempty [of N] by simp
  have NL: "10 ^ (L - 1) \<le> N \<and> N < 10 ^ L"
    unfolding L_def using N by (rule show_nat_length_bounds)
  define k where "k = length (show_nat s)"
  have kn: "int k \<le> n"
  proof (cases "L \<le> 17")
    case True
    have one: "1 \<le> length (show_nat N)"
      using show_nat_nonempty [of N] by (cases "show_nat N") simp_all
    have "s < 10 ^ length (show_nat N)"
      using True one unfolding L_def
      by (intro shortest_digits_short [OF N rep _ _ _ sd [unfolded L_def]]) simp_all
    then have "s < 10 ^ L" by (simp add: L_def)
    then have "k \<le> L" unfolding k_def using Lpos by (rule show_nat_length_le)
    with b show ?thesis by auto
  next
    case False
    from b have "s < 10 ^ 17" by simp
    then have "k \<le> 17" unfolding k_def by (rule show_nat_length_le) simp
    with False b show ?thesis by auto
  qed
  show ?thesis
  proof (cases "n \<le> 21")
    case True
    have "positive_to_string (of_nat N) = show_nat s @ replicate (nat (n - int k)) (CHR ''0'')"
      unfolding positive_to_string_def fl sd using True kn by (simp add: k_def Let_def)
    moreover have "N < 10 ^ 21"
    proof -
      have "L \<le> 21" using True b by auto
      then have "(10::nat) ^ L \<le> 10 ^ 21" by (intro power_increasing) simp_all
      with NL show ?thesis by linarith
    qed
    ultimately show ?thesis using b by blast
  next
    case False
    have kpos: "0 < k" unfolding k_def using show_nat_nonempty [of s] by simp
    obtain d ds where ds: "show_nat s = d # ds"
      using show_nat_nonempty [of s] by (cases "show_nat s") auto
    have d: "is_digit d" using show_nat_digits [of s] by (simp add: ds)
    have "\<exists>c rest. (c = CHR ''.'' \<or> c = CHR ''e'') \<and> positive_to_string (of_nat N) = d # c # rest"
    proof (cases "k = 1")
      case True
      then have "ds = []" using ds by (simp add: k_def Let_def)
      then show ?thesis
        unfolding positive_to_string_def fl sd using False kn True ds
        by (simp add: k_def Let_def)
    next
      case k1: False
      show ?thesis
        unfolding positive_to_string_def fl sd using False kn k1 ds
        by (simp add: k_def Let_def)
    qed
    moreover have "10 ^ 20 \<le> N"
    proof -
      have "20 \<le> L - 1" using False b by auto
      then have "(10::nat) ^ 20 \<le> 10 ^ (L - 1)" by (intro power_increasing) simp_all
      with NL show ?thesis by linarith
    qed
    ultimately show ?thesis using d by blast
  qed
qed

section \<open>Parsing a numeral\<close>

lemma is_digit_not_space: "is_digit c \<Longrightarrow> \<not> is_js_space c"
  by (auto simp add: is_digit_def is_js_space_def less_eq_char_def)

lemma minus_not_space: "\<not> is_js_space (CHR ''-'')"
  by code_simp

lemma is_digit_radix: "is_digit c \<Longrightarrow> is_radix_digit 10 c"
  using radix_val_digit_le [of c] by (simp add: is_radix_digit_def)

lemma not_radix_dot: "\<not> is_radix_digit 10 (CHR ''.'')"
  by code_simp

lemma not_radix_e: "\<not> is_radix_digit 10 (CHR ''e'')"
  by code_simp

lemma is_digit_not_letter:
  assumes "is_digit c"
  shows "c \<noteq> CHR ''x'' \<and> c \<noteq> CHR ''X'' \<and> c \<noteq> CHR ''o'' \<and> c \<noteq> CHR ''O'' \<and> c \<noteq> CHR ''b''
    \<and> c \<noteq> CHR ''B'' \<and> c \<noteq> CHR ''+'' \<and> c \<noteq> CHR ''-'' \<and> c \<noteq> CHR ''I'' \<and> c \<noteq> CHR ''.''
    \<and> c \<noteq> CHR ''e'' \<and> c \<noteq> CHR ''t'' \<and> c \<noteq> CHR ''f'' \<and> c \<noteq> CHR ''n'' \<and> c \<noteq> CHR ''N''"
  using assms by (auto simp add: is_digit_def less_eq_char_def)

lemma dropWhile_hd: "s \<noteq> [] \<Longrightarrow> \<not> P (hd s) \<Longrightarrow> dropWhile P s = s"
  by (cases s) simp_all

lemma numeral_body:
  assumes ds: "ds \<noteq> []" "list_all is_digit ds"
    and rest: "rest = [] \<or> hd rest = CHR ''.'' \<or> hd rest = CHR ''e''"
  shows "take 2 (ds @ rest) \<noteq> ''0x'' \<and> take 2 (ds @ rest) \<noteq> ''0X''
    \<and> takeWhile (is_radix_digit 10) (ds @ rest) = ds"
proof -
  obtain d ds' where d: "ds = d # ds'" using ds(1) by (cases ds) auto
  have tw: "takeWhile (is_radix_digit 10) (ds @ rest) = ds"
  proof -
    have "\<forall>x \<in> set ds. is_radix_digit 10 x"
      using ds(2) by (simp add: list_all_iff is_digit_radix)
    then have "takeWhile (is_radix_digit 10) (ds @ rest) = ds @ takeWhile (is_radix_digit 10) rest"
      by simp
    moreover have "takeWhile (is_radix_digit 10) rest = []"
      using rest not_radix_dot not_radix_e by (cases rest) auto
    ultimately show ?thesis by simp
  qed
  have "take 2 (ds @ rest) \<noteq> ''0x'' \<and> take 2 (ds @ rest) \<noteq> ''0X''"
  proof (cases ds')
    case Nil
    show ?thesis
    proof (cases rest)
      case Nil
      with \<open>ds' = []\<close> d show ?thesis by simp
    next
      case (Cons c r)
      with rest have "c = CHR ''.'' \<or> c = CHR ''e''" by simp
      with Cons \<open>ds' = []\<close> d show ?thesis by auto
    qed
  next
    case (Cons d2 r)
    with ds(2) d have "is_digit d2" by simp
    from is_digit_not_letter [OF this] Cons d show ?thesis by simp
  qed
  with tw show ?thesis by simp
qed

lemma parseInt_plain:
  assumes ds: "ds \<noteq> []" "list_all is_digit ds"
    and rest: "rest = [] \<or> hd rest = CHR ''.'' \<or> hd rest = CHR ''e''"
  shows "parseInt (ds @ rest) = to_double False (of_nat (nat_of_digits 10 ds))"
proof -
  obtain d ds' where d: "ds = d # ds'" using ds(1) by (cases ds) auto
  have dd: "is_digit d" using ds(2) d by simp
  have ts: "trim_start (ds @ rest) = ds @ rest"
    unfolding trim_start_def using d is_digit_not_space [OF dd] by (intro dropWhile_hd) simp_all
  have hd: "hd (ds @ rest) = d" "ds @ rest \<noteq> []" using d by simp_all
  from numeral_body [OF ds rest] is_digit_not_letter [OF dd] ds(1) show ?thesis
    unfolding parseInt_def ts Let_def hd by simp
qed

lemma parseInt_minus:
  assumes ds: "ds \<noteq> []" "list_all is_digit ds"
    and rest: "rest = [] \<or> hd rest = CHR ''.'' \<or> hd rest = CHR ''e''"
  shows "parseInt (CHR ''-'' # ds @ rest) = to_double True (of_nat (nat_of_digits 10 ds))"
proof -
  have ts: "trim_start (CHR ''-'' # ds @ rest) = CHR ''-'' # ds @ rest"
    unfolding trim_start_def using minus_not_space by (intro dropWhile_hd) simp_all
  from numeral_body [OF ds rest] ds(1) show ?thesis
    unfolding parseInt_def ts Let_def by simp
qed

lemma trim_numeral:
  assumes "s \<noteq> []" "\<not> is_js_space (hd s)" "\<not> is_js_space (last s)"
  shows "trim s = s"
proof -
  have a: "dropWhile is_js_space s = s" using assms(1,2) by (rule dropWhile_hd)
  have "dropWhile is_js_space (rev s) = rev s"
    using assms(1,3) by (intro dropWhile_hd) (simp_all add: hd_rev)
  with a show ?thesis by (simp add: trim_def)
qed

lemma unsigned_decimal_digits:
  assumes ds: "ds \<noteq> []" "list_all is_digit ds"
  shows "unsigned_decimal_literal ds = Some (of_nat (nat_of_digits 10 ds))"
proof -
  have all: "\<forall>x \<in> set ds. is_digit x" using ds(2) by (simp add: list_all_iff)
  then have tw: "takeWhile is_digit ds = ds" by (simp add: takeWhile_eq_all_conv)
  from all have dw: "dropWhile is_digit ds = []" by simp
  show ?thesis
    unfolding unsigned_decimal_literal_def tw dw Let_def using ds(1)
    by (simp add: exponent_part_def)
qed

lemma non_decimal_digits:
  assumes ds: "ds \<noteq> []" "list_all is_digit ds"
  shows "non_decimal_literal ds = None"
proof -
  obtain d ds' where d: "ds = d # ds'" using ds(1) by (cases ds) auto
  show ?thesis
  proof (cases ds')
    case Nil
    with d show ?thesis by (simp add: non_decimal_literal_def)
  next
    case (Cons d2 r)
    with ds(2) d have "is_digit d2" by simp
    from is_digit_not_letter [OF this] Cons d show ?thesis
      by (simp add: non_decimal_literal_def)
  qed
qed

lemma non_decimal_minus: "non_decimal_literal (CHR ''-'' # ds) = None"
  by (cases ds) (simp_all add: non_decimal_literal_def)

lemma last_digits:
  assumes ds: "ds \<noteq> []" "list_all is_digit ds"
  shows "is_digit (last ds)"
  using ds by (simp add: list_all_iff)

lemma Number_plain:
  assumes ds: "ds \<noteq> []" "list_all is_digit ds"
  shows "Number ds = to_double False (of_nat (nat_of_digits 10 ds))"
proof -
  obtain d ds' where d: "ds = d # ds'" using ds(1) by (cases ds) auto
  have dd: "is_digit d" using ds(2) d by simp
  have t: "trim ds = ds"
    using ds(1) is_digit_not_space [OF dd] is_digit_not_space [OF last_digits [OF ds]] d
    by (intro trim_numeral) simp_all
  have inf: "ds \<noteq> ''Infinity''" using is_digit_not_letter [OF dd] d by auto
  have hd: "hd ds = d" using d by simp
  show ?thesis
    unfolding Number_def string_to_number_def t Let_def non_decimal_digits [OF ds] hd
    using ds(1) inf is_digit_not_letter [OF dd] unsigned_decimal_digits [OF ds]
    by simp
qed

lemma Number_minus:
  assumes ds: "ds \<noteq> []" "list_all is_digit ds"
  shows "Number (CHR ''-'' # ds) = to_double True (of_nat (nat_of_digits 10 ds))"
proof -
  obtain d ds' where d: "ds = d # ds'" using ds(1) by (cases ds) auto
  have dd: "is_digit d" using ds(2) d by simp
  have t: "trim (CHR ''-'' # ds) = CHR ''-'' # ds"
    using ds(1) minus_not_space is_digit_not_space [OF last_digits [OF ds]]
    by (intro trim_numeral) simp_all
  have inf: "ds \<noteq> ''Infinity''" using is_digit_not_letter [OF dd] d by auto
  show ?thesis
    unfolding Number_def string_to_number_def t Let_def non_decimal_minus
    using ds(1) inf unsigned_decimal_digits [OF ds]
    by simp
qed

section \<open>Native inference\<close>

lemma is_int_string_plain:
  assumes "ds \<noteq> []" "list_all is_digit ds" "ds = ''0'' \<or> hd ds \<noteq> CHR ''0''"
  shows "is_int_string ds"
proof -
  obtain d ds' where d: "ds = d # ds'" using assms(1) by (cases ds) auto
  have "is_digit d" using assms(2) d by simp
  from is_digit_not_letter [OF this] assms d show ?thesis
    by (auto simp add: is_int_string_def)
qed

lemma is_int_string_minus:
  assumes "ds \<noteq> []" "list_all is_digit ds" "hd ds \<noteq> CHR ''0''"
  shows "is_int_string (CHR ''-'' # ds)"
  using assms by (simp add: is_int_string_def)

lemma is_int_string_cases:
  assumes "is_int_string v"
  obtains (plain) "v \<noteq> []" "list_all is_digit v" "v = ''0'' \<or> hd v \<noteq> CHR ''0''"
      "int_of_string v = int (nat_of_digits 10 v)"
    | (minus) ds where "v = CHR ''-'' # ds" "ds \<noteq> []" "list_all is_digit ds" "hd ds \<noteq> CHR ''0''"
      "int_of_string v = - int (nat_of_digits 10 ds)"
proof (cases "v \<noteq> [] \<and> hd v = CHR ''-''")
  case True
  then obtain ds where v: "v = CHR ''-'' # ds" by (cases v) auto
  with assms have a: "ds \<noteq> []" "list_all is_digit ds" "hd ds \<noteq> CHR ''0''"
    by (auto simp add: is_int_string_def)
  have "int_of_string v = - int (nat_of_digits 10 ds)"
    using v by (simp add: int_of_string_def)
  with v a show ?thesis by (rule minus)
next
  case False
  with assms have "v \<noteq> []" "list_all is_digit v" "v = ''0'' \<or> hd v \<noteq> CHR ''0''"
    by (auto simp add: is_int_string_def)
  moreover have "int_of_string v = int (nat_of_digits 10 v)"
    using False by (auto simp add: int_of_string_def)
  ultimately show ?thesis by (rule plain)
qed

lemma digits_not_keyword:
  assumes "ds \<noteq> []" "is_digit (hd ds) \<or> hd ds = CHR ''-''"
  shows "ds \<noteq> ''true'' \<and> ds \<noteq> ''false'' \<and> ds \<noteq> ''null'' \<and> ds \<noteq> ''NaN''"
proof -
  obtain d ds' where d: "ds = d # ds'" using assms(1) by (cases ds) auto
  have hd: "hd ds = d" using d by simp
  have "d \<noteq> CHR ''t'' \<and> d \<noteq> CHR ''f'' \<and> d \<noteq> CHR ''n'' \<and> d \<noteq> CHR ''N''"
  proof (cases "is_digit d")
    case True
    from is_digit_not_letter [OF this] show ?thesis by simp
  next
    case False
    with assms(2) hd have "d = CHR ''-''" by simp
    then show ?thesis by simp
  qed
  then show ?thesis unfolding d by simp
qed

lemma nativize_plain:
  assumes ds: "ds \<noteq> []" "list_all is_digit ds"
  shows "nativize ds =
    (if number_to_string (to_double False (of_nat (nat_of_digits 10 ds))) = ds
     then JNum (to_double False (of_nat (nat_of_digits 10 ds))) else JStr ds)"
proof -
  have "is_digit (hd ds)" using ds by (cases ds) simp_all
  with digits_not_keyword [of ds] ds(1)
  have k: "ds \<noteq> ''true''" "ds \<noteq> ''false''" "ds \<noteq> ''null''" by simp_all
  have p: "parseInt ds = to_double False (of_nat (nat_of_digits 10 ds))"
    using parseInt_plain [OF ds, of "[]"] by simp
  show ?thesis
    unfolding nativize_def p Number_plain [OF ds] using k by simp
qed

lemma nativize_minus:
  assumes ds: "ds \<noteq> []" "list_all is_digit ds"
  shows "nativize (CHR ''-'' # ds) =
    (if number_to_string (to_double True (of_nat (nat_of_digits 10 ds))) = CHR ''-'' # ds
     then JNum (to_double True (of_nat (nat_of_digits 10 ds))) else JStr (CHR ''-'' # ds))"
proof -
  have p: "parseInt (CHR ''-'' # ds) = to_double True (of_nat (nat_of_digits 10 ds))"
    using parseInt_minus [OF ds, of "[]"] by simp
  show ?thesis
    unfolding nativize_def p Number_minus [OF ds] by simp
qed

lemma show_nat_0: "show_nat 0 = ''0''"
  by (simp add: show_nat.simps [of 0] digit_char_0)

lemma number_to_string_safe:
  assumes "m < 2 ^ 53"
  shows "number_to_string (Finite False (of_nat m)) = show_nat m"
    and "0 < m \<Longrightarrow> number_to_string (Finite True (of_nat m)) = CHR ''-'' # show_nat m"
  using assms by (simp_all add: positive_to_string_safe show_nat_0)

lemma nativize_safe:
  assumes v: "is_int_string v" and safe: "\<bar>int_of_string v\<bar> < 2 ^ 53"
  shows "nativize v = JNum (number_of_int (int_of_string v))"
  using v
proof (cases rule: is_int_string_cases)
  case plain
  define m where "m = nat_of_digits 10 v"
  have m: "m < 2 ^ 53" using safe plain(4) unfolding m_def by simp
  have s: "show_nat m = v" unfolding m_def using plain(1-3) by (rule show_nat_nat_of_digits)
  have "nativize v = JNum (Finite False (of_nat m))"
    unfolding nativize_plain [OF plain(1,2)] m_def [symmetric] to_double_small [OF m]
      number_to_string_safe(1) [OF m] s by simp
  then show ?thesis using plain(4) by (simp add: number_of_int_def m_def)
next
  case (minus ds)
  define m where "m = nat_of_digits 10 ds"
  have m: "m < 2 ^ 53" using safe minus(5) unfolding m_def by simp
  have pos: "0 < m" unfolding m_def using minus(2-4) by (rule nat_of_digits_pos)
  have s: "show_nat m = ds" unfolding m_def using minus(2-4) by (intro show_nat_nat_of_digits) simp_all
  have "nativize v = JNum (Finite True (of_nat m))"
    unfolding minus(1) nativize_minus [OF minus(2,3)] m_def [symmetric] to_double_small [OF m]
      number_to_string_safe(2) [OF m pos] s by simp
  then show ?thesis using minus(5) pos by (simp add: number_of_int_def m_def)
qed

lemma nativize_int_string:
  assumes v: "is_int_string v"
  shows "nativize v =
    (if number_to_string (to_double (int_of_string v < 0) (of_int \<bar>int_of_string v\<bar>)) = v
     then JNum (to_double (int_of_string v < 0) (of_int \<bar>int_of_string v\<bar>)) else JStr v)"
  using v
proof (cases rule: is_int_string_cases)
  case plain
  show ?thesis
    unfolding nativize_plain [OF plain(1,2)] plain(4) by simp
next
  case (minus ds)
  have pos: "0 < nat_of_digits 10 ds" using minus(2-4) by (rule nat_of_digits_pos)
  show ?thesis
    unfolding minus(5) unfolding minus(1) nativize_minus [OF minus(2,3)] using pos by simp
qed

lemma to_double_finite:
  assumes "to_double b (of_nat m) = Finite neg q"
  shows "q = 0 \<or> (\<exists>N. 0 < N \<and> q = of_nat N \<and> round_mag (of_nat N) = Some (of_nat N))"
proof (cases "m = 0")
  case True
  with assms show ?thesis by simp
next
  case False
  from assms have "round_mag (of_nat m) = Some q"
    by (simp add: to_double_def split: option.splits)
  from round_mag_idem [OF _ this] False show ?thesis by auto
qed

lemma parseInt_finite:
  assumes "parseInt v = Finite neg q"
  shows "q = 0 \<or> (\<exists>N. 0 < N \<and> q = of_nat N \<and> round_mag (of_nat N) = Some (of_nat N))"
proof -
  have "parseInt v = NaN \<or> (\<exists>b m. parseInt v = to_double b (of_nat m))"
    unfolding parseInt_def Let_def by (auto simp del: of_nat_numeral)
  with assms obtain b m where "to_double b (of_nat m) = Finite neg q" by auto
  then show ?thesis by (rule to_double_finite)
qed

lemma parseInt_Infinity: "parseInt ''Infinity'' = NaN \<and> parseInt ''-Infinity'' = NaN"
  by code_simp

lemma is_int_string_0: "is_int_string ''0''"
  by (rule is_int_string_plain) (simp_all add: is_digit_def less_eq_char_def)

lemma parseInt_exponent_form:
  assumes d: "is_digit d" and c: "c = CHR ''.'' \<or> c = CHR ''e''"
  shows "parseInt (d # c # rest) = Finite False (of_nat (radix_val d))"
    and "parseInt (CHR ''-'' # d # c # rest) = Finite True (of_nat (radix_val d))"
proof -
  have n: "nat_of_digits 10 [d] = radix_val d" by (simp add: nat_of_digits_def)
  have small: "radix_val d < 2 ^ 53" using radix_val_digit_le [OF d] by simp
  have ds: "[d] \<noteq> []" "list_all is_digit [d]" using d by simp_all
  have r: "c # rest = [] \<or> hd (c # rest) = CHR ''.'' \<or> hd (c # rest) = CHR ''e''" using c by simp
  show "parseInt (d # c # rest) = Finite False (of_nat (radix_val d))"
    using parseInt_plain [OF ds r] unfolding n to_double_small [OF small] by simp
  show "parseInt (CHR ''-'' # d # c # rest) = Finite True (of_nat (radix_val d))"
    using parseInt_minus [OF ds r] unfolding n to_double_small [OF small] by simp
qed

lemma round_trip_int_string:
  assumes eq: "number_to_string (parseInt v) = v"
  shows "v = ''NaN'' \<or> is_int_string v"
proof (cases "parseInt v")
  case NaN
  with eq show ?thesis by simp
next
  case (Infinity b)
  with eq have "v = ''Infinity'' \<or> v = ''-Infinity''" by (auto split: if_splits)
  with parseInt_Infinity Infinity show ?thesis by auto
next
  case (Finite neg q)
  show ?thesis
  proof (cases "q = 0")
    case True
    with eq Finite is_int_string_0 show ?thesis by simp
  next
    case False
    with parseInt_finite [OF Finite] obtain N where
      N: "0 < N" "q = of_nat N" "round_mag (of_nat N) = Some (of_nat N)" by auto
    have v: "v = (if neg then ''-'' else []) @ positive_to_string (of_nat N)"
      using eq Finite False N(2) by simp
    from positive_to_string_shape [OF N(1,3)] consider
      (digits) s j where "0 < s" "positive_to_string (of_nat N) = show_nat s @ replicate j (CHR ''0'')"
      | (exponent) d c rest where "10 ^ 20 \<le> N" "is_digit d" "c = CHR ''.'' \<or> c = CHR ''e''"
          "positive_to_string (of_nat N) = d # c # rest"
      by blast
    then show ?thesis
    proof cases
      case (digits s j)
      note s = digits(1) and p = digits(2)
      define ds where "ds = show_nat s @ replicate j (CHR ''0'')"
      have z: "is_digit (CHR ''0'')" by (simp add: is_digit_def)
      have "ds \<noteq> []" unfolding ds_def using show_nat_nonempty [of s] by simp
      moreover have "list_all is_digit ds"
        unfolding ds_def using show_nat_digits [of s] z by (auto simp add: list_all_iff)
      moreover have "hd ds \<noteq> CHR ''0''"
        unfolding ds_def using hd_show_nat [OF s] show_nat_nonempty [of s] by simp
      ultimately have "is_int_string ds" "is_int_string (CHR ''-'' # ds)"
        by (simp_all add: is_int_string_plain is_int_string_minus)
      then have "is_int_string v" unfolding v p ds_def [symmetric] by simp
      then show ?thesis ..
    next
      case (exponent d c rest)
      note big = exponent(1) and d = exponent(2) and c = exponent(3) and p = exponent(4)
      have "parseInt v = Finite neg (of_nat (radix_val d))"
        unfolding v p using parseInt_exponent_form [OF d c, of rest] by simp
      with Finite N(2) have "(of_nat N :: rat) = of_nat (radix_val d)" by simp
      then have "N = radix_val d" by (simp only: of_nat_eq_iff)
      with radix_val_digit_le [OF d] big show ?thesis by simp
    qed
  qed
qed

lemma nativize_not_int_string:
  assumes "\<not> is_int_string v" "v \<noteq> ''NaN''" "v \<noteq> ''true''" "v \<noteq> ''false''" "v \<noteq> ''null''"
  shows "nativize v = JStr v"
  using assms round_trip_int_string [of v] by (auto simp add: nativize_def)

lemma nativize_keywords:
  "nativize ''true'' = JBool True \<and> nativize ''false'' = JBool False \<and> nativize ''null'' = JNull
   \<and> nativize ''NaN'' = JNum NaN"
  by code_simp

lemma round_mag_10_21:
  "round_mag (of_nat 1000000000000000000000) = Some (of_nat 1000000000000000000000)"
proof -
  have "round_mag (of_nat (7629394531250000 * 2 ^ 17)) = Some (of_nat (7629394531250000 * 2 ^ 17))"
    by (rule round_mag_exact) (simp_all add: overflow_bound_def)
  moreover have "(7629394531250000 * 2 ^ 17 :: nat) = 1000000000000000000000" by simp
  ultimately show ?thesis by (simp only:)
qed

lemma number_to_string_10_21:
  "number_to_string (Finite False (of_nat 1000000000000000000000)) \<noteq> ''1000000000000000000000''"
proof -
  define N :: nat where "N = 1000000000000000000000"
  have N: "0 < N" "\<not> N < 10 ^ 21" by (simp_all add: N_def)
  have rep: "round_mag (of_nat N) = Some (of_nat N)" unfolding N_def by (rule round_mag_10_21)
  from positive_to_string_shape [OF N(1) rep] N(2) obtain d c rest where
    c: "c = CHR ''.'' \<or> c = CHR ''e''" and p: "positive_to_string (of_nat N) = d # c # rest"
    by blast
  have "number_to_string (Finite False (of_nat N)) = d # c # rest"
    using N(1) p by simp
  with c show ?thesis unfolding N_def by auto
qed

text \<open>
  Claim C5 says that native inference gives a number exactly when the value is the string
  form of a base-10 integer. The string form of \<open>10 ^ 21\<close> is such a value and stays a
  string: the nearest double prints as \<open>1e+21\<close>. And \<open>NaN\<close> is no integer, yet the result is a
  Number, the not-a-number value.
\<close>

theorem nativize_integer_counterexample:
  "is_int_string ''1000000000000000000000''
   \<and> nativize ''1000000000000000000000'' = JStr ''1000000000000000000000''
   \<and> \<not> is_int_string ''NaN'' \<and> nativize ''NaN'' = JNum NaN"
proof -
  have ds: "''1000000000000000000000'' \<noteq> []" "list_all is_digit ''1000000000000000000000''"
    by (simp_all add: is_digit_def less_eq_char_def)
  have i: "is_int_string ''1000000000000000000000''" by code_simp
  have m: "nat_of_digits 10 ''1000000000000000000000'' = 1000000000000000000000" by code_simp
  have td: "to_double False (of_nat 1000000000000000000000) = Finite False (of_nat 1000000000000000000000)"
    unfolding to_double_def round_mag_10_21 by simp
  have "nativize ''1000000000000000000000'' = JStr ''1000000000000000000000''"
    unfolding nativize_plain [OF ds] m td using number_to_string_10_21 by (simp only: if_False)
  moreover have "\<not> is_int_string ''NaN''" by code_simp
  moreover have "nativize ''NaN'' = JNum NaN" by code_simp
  ultimately show ?thesis using i by blast
qed

text \<open>
  Claim C5, amended. For a raw value \<open>v\<close> with no cast syntax:
  if \<open>v\<close> is the string form of a base-10 integer of magnitude below \<open>2 ^ 53\<close>, native inference
  gives the Number of exactly that value; if \<open>v\<close> is the string form of any base-10 integer, it
  gives the double nearest to the integer when that double prints back as \<open>v\<close>, and \<open>v\<close> itself
  otherwise; \<open>true\<close>, \<open>false\<close> and \<open>null\<close> give the two booleans and null; a \<open>v\<close> that is none of
  these, and not \<open>NaN\<close>, comes back unchanged. So \<open>42\<close> and \<open>-3\<close> become numbers, \<open>5.5\<close> and \<open>007\<close>
  stay strings.
\<close>

theorem nativize_inference:
  "(is_int_string v \<and> \<bar>int_of_string v\<bar> < 2 ^ 53 \<longrightarrow>
      nativize v = JNum (number_of_int (int_of_string v)))
   \<and> (is_int_string v \<longrightarrow>
      nativize v =
        (if number_to_string (to_double (int_of_string v < 0) (of_int \<bar>int_of_string v\<bar>)) = v
         then JNum (to_double (int_of_string v < 0) (of_int \<bar>int_of_string v\<bar>)) else JStr v))
   \<and> nativize ''true'' = JBool True \<and> nativize ''false'' = JBool False
   \<and> nativize ''null'' = JNull
   \<and> (\<not> is_int_string v \<and> v \<noteq> ''NaN'' \<and> v \<noteq> ''true'' \<and> v \<noteq> ''false'' \<and> v \<noteq> ''null'' \<longrightarrow>
      nativize v = JStr v)
   \<and> nativize ''42'' = JNum (Finite False 42) \<and> nativize ''-3'' = JNum (Finite True 3)
   \<and> nativize ''5.5'' = JStr ''5.5'' \<and> nativize ''007'' = JStr ''007''"
proof -
  have a: "is_int_string ''42''" "int_of_string ''42'' = 42"
    "is_int_string ''-3''" "int_of_string ''-3'' = - 3" by code_simp+
  have e1: "nativize ''42'' = JNum (Finite False 42)"
    using nativize_safe [of "''42''"] a(1) unfolding a(2) by (simp add: number_of_int_def)
  have e2: "nativize ''-3'' = JNum (Finite True 3)"
    using nativize_safe [of "''-3''"] a(3) unfolding a(4) by (simp add: number_of_int_def)
  have b: "\<not> is_int_string ''5.5''" "\<not> is_int_string ''007''" by code_simp+
  have e3: "nativize ''5.5'' = JStr ''5.5''"
    using b(1) by (intro nativize_not_int_string) simp_all
  have e4: "nativize ''007'' = JStr ''007''"
    using b(2) by (intro nativize_not_int_string) simp_all
  show ?thesis
    using nativize_safe [of v] nativize_int_string [of v] nativize_not_int_string [of v]
      nativize_keywords e1 e2 e3 e4
    by blast
qed

text \<open>The theorem at \<open>v = "9007199254740991"\<close>, the greatest integer below \<open>2 ^ 53\<close>, and at \<open>v = "5.5"\<close>.\<close>

theorem nativize_inference_witness:
  "is_int_string ''9007199254740991'' \<and> \<bar>int_of_string ''9007199254740991''\<bar> < 2 ^ 53
   \<and> nativize ''9007199254740991'' = JNum (Finite False 9007199254740991)
   \<and> \<not> is_int_string ''5.5'' \<and> nativize ''5.5'' = JStr ''5.5''"
proof -
  have a: "is_int_string ''9007199254740991''" "int_of_string ''9007199254740991'' = 9007199254740991"
    by code_simp+
  have b: "\<not> is_int_string ''5.5''" by code_simp
  show ?thesis
    using nativize_inference [of "''9007199254740991''"] nativize_inference [of "''5.5''"] a(1) b
    unfolding a(2) by (simp add: number_of_int_def)
qed


end
